theory Spec2Isabelle
  imports Main "HOL-Library.Multiset" "HOL-Library.Log_Nat"
begin

section \<open>Data model\<close>

text \<open>
  The notebook defines two classes on top of the Mesa library: \<open>Ash_Tree\<close> (an agent with
  an id, a grid position and a health condition, one of the strings \<open>Healthy\<close>,
  \<open>Infected\<close>, \<open>Dead\<close>) and \<open>Forest\<close> (the model: a scheduler holding the trees in
  creation order, a non-toroidal single-occupancy grid, and a data collector with one row
  of counts per step). Python objects are shared between the scheduler and the grid; here
  the list \<open>schedule\<close> is the store of the trees, in creation order, and the grid and the
  scheduler's agent set (\<open>agent_keys\<close>) hold indices into it. The library is modelled as
  Mesa 2.2 and later behave: the scheduler shuffles its agent set in place, and the grid
  refuses negative dimensions.
\<close>

type_synonym coord = "int \<times> int"

record Ash_Tree =
  unique_id :: nat
  pos :: coord
  condition :: string

datatype error = IndexError | CellNotEmpty | OverflowError | ValueError

text \<open>
  A Python float is a finite binary64 number, written here as a pair \<open>(m, e)\<close> that
  stands for \<open>m * 2 ^ e\<close>.
\<close>

type_synonym double = "int \<times> int"

record Forest =
  width :: int
  height :: int
  tree_density :: double
  running :: bool
  steps :: nat
  schedule :: "Ash_Tree list"
  agent_keys :: "nat list"
  grid :: "(coord \<times> nat) list"
  datacollector :: "(nat \<times> nat \<times> nat) list"

section \<open>Floating-point arithmetic of the agent count\<close>

text \<open>
  The number of trees is \<open>int(self.width*self.height*self.tree_density)\<close>: an integer
  product, converted to a float, multiplied by a float and truncated. \<open>dval\<close> is the
  number a pair stands for, and \<open>is_double\<close> holds of the pairs that are floats.
\<close>

definition dval :: "double \<Rightarrow> rat" where
  "dval d = of_int (fst d) * (if 0 \<le> snd d then 2 ^ nat (snd d) else 1 / 2 ^ nat (- snd d))"

definition is_double :: "double \<Rightarrow> bool" where
  "is_double d = (\<bar>fst d\<bar> < 2 ^ 53 \<and> - 1074 \<le> snd d \<and> snd d \<le> 971)"

text \<open>\<open>round_shift n s\<close> is \<open>n / 2 ^ s\<close> rounded to the nearest integer, ties to even.\<close>

definition round_shift :: "int \<Rightarrow> nat \<Rightarrow> int" where
  "round_shift n s =
     (let q = n div 2 ^ s; r = n mod 2 ^ s
      in if 2 * r < 2 ^ s then q
         else if 2 ^ s < 2 * r then q + 1
         else if even q then q else q + 1)"

text \<open>
  \<open>round_double n e\<close> is the binary64 number nearest to \<open>n * 2 ^ e\<close> (53 significant
  bits, least exponent \<open>-1074\<close>, ties to even); \<open>None\<close> stands for an infinity.
\<close>

definition round_double :: "int \<Rightarrow> int \<Rightarrow> double option" where
  "round_double n e =
     (let s = nat (max (bitlen \<bar>n\<bar> - 53) (- 1074 - e));
          m = round_shift \<bar>n\<bar> s;
          e' = e + int s
      in if m \<noteq> 0 \<and> 1024 < bitlen m + e' then None else Some (sgn n * m, e'))"

text \<open>\<open>float(n)\<close> for a Python int, as the mixed product \<open>int * float\<close> applies it.\<close>

definition float_of_int :: "int \<Rightarrow> error + double" where
  "float_of_int n = (case round_double n 0 of None \<Rightarrow> Inl OverflowError | Some d \<Rightarrow> Inr d)"

definition float_mul :: "double \<Rightarrow> double \<Rightarrow> double option" where
  "float_mul a b = round_double (fst a * fst b) (snd a + snd b)"

text \<open>\<open>int(x)\<close> truncates towards zero and raises on an infinity.\<close>

definition int_of_float :: "double option \<Rightarrow> error + int" where
  "int_of_float x =
     (case x of
        None \<Rightarrow> Inl OverflowError
      | Some d \<Rightarrow>
          Inr (if 0 \<le> snd d then fst d * 2 ^ nat (snd d)
               else sgn (fst d) * (\<bar>fst d\<bar> div 2 ^ nat (- snd d))))"

text \<open>\<^verbatim>\<open>num_of_agents = int(self.width*self.height*self.tree_density)\<close>\<close>

definition num_of_agents :: "int \<Rightarrow> int \<Rightarrow> double \<Rightarrow> error + int" where
  "num_of_agents W H D =
     (case float_of_int (W * H) of
        Inl err \<Rightarrow> Inl err
      | Inr a \<Rightarrow> int_of_float (float_mul a D))"

section \<open>The random source\<close>

text \<open>
  Mesa gives every model one generator, \<open>self.random\<close>. The notebook uses it twice: to
  shuffle the list of positions in the constructor, and (inside
  \<open>RandomActivation.step\<close>) to shuffle the agent keys once per step. \<open>random.shuffle\<close>
  permutes by index, so the outcome of the \<open>c\<close>-th call on a list of length \<open>n\<close> is a
  permutation \<open>rnd c n\<close> of \<open>[0..<n]\<close>: the shuffled list has at index \<open>i\<close> the element
  the list had at index \<open>rnd c n ! i\<close>. The notebook passes no seed, so the generator is
  not an argument of the code; it is a parameter of the model, over which every statement
  quantifies.
\<close>

type_synonym random_source = "nat \<Rightarrow> nat \<Rightarrow> nat list"

definition valid_random :: "random_source \<Rightarrow> bool" where
  "valid_random rnd = (\<forall>c n. mset (rnd c n) = mset [0..<n])"

definition shuffle :: "nat list \<Rightarrow> 'a list \<Rightarrow> 'a list" where
  "shuffle perm xs = map (\<lambda>i. xs ! i) perm"

section \<open>The grid\<close>

text \<open>
  \<open>SingleGrid(width, height, torus=False)\<close>: \<open>get_neighbors(pos, moore=True,
  include_center=False)\<close> walks the cells at distance at most one in each coordinate,
  drops those outside the grid and the centre, and returns the occupants of the others.
\<close>

definition out_of_bounds :: "int \<Rightarrow> int \<Rightarrow> coord \<Rightarrow> bool" where
  "out_of_bounds W H p = (fst p < 0 \<or> W \<le> fst p \<or> snd p < 0 \<or> H \<le> snd p)"

definition get_neighborhood :: "int \<Rightarrow> int \<Rightarrow> coord \<Rightarrow> coord list" where
  "get_neighborhood W H p =
     filter (\<lambda>c. c \<noteq> p \<and> \<not> out_of_bounds W H c)
       (concat (map (\<lambda>dx. map (\<lambda>dy. (fst p + dx, snd p + dy)) [- 1, 0, 1]) [- 1, 0, 1]))"

definition get_neighbors :: "(coord \<times> nat) list \<Rightarrow> int \<Rightarrow> int \<Rightarrow> coord \<Rightarrow> nat list" where
  "get_neighbors g W H p = List.map_filter (map_of g) (get_neighborhood W H p)"

section \<open>Ash\_Tree\<close>

text \<open>
  The body of the neighbour loop:
  \<^verbatim>\<open>if isinstance(neighbor, Ash_Tree) and neighbor.condition == "Healthy":
      neighbor.condition = "Infected"\<close>
  Every occupant of the grid is an \<open>Ash_Tree\<close>. A reference is an index into the store;
  an index outside the store denotes no object and nothing is written.
\<close>

definition infect :: "nat \<Rightarrow> Ash_Tree list \<Rightarrow> Ash_Tree list" where
  "infect n ts =
     (if n < length ts \<and> condition (ts ! n) = ''Healthy''
      then ts[n := (ts ! n)\<lparr>condition := ''Infected''\<rparr>]
      else ts)"

definition maybe_spread_infection :: "nat \<Rightarrow> Forest \<Rightarrow> Forest" where
  "maybe_spread_infection k m =
     (let ts = schedule m in
      if k < length ts \<and> condition (ts ! k) = ''Infected''
      then let neighbors = get_neighbors (grid m) (width m) (height m) (pos (ts ! k));
               ts' = fold infect neighbors ts
           in m\<lparr>schedule := ts'[k := (ts' ! k)\<lparr>condition := ''Dead''\<rparr>]\<rparr>
      else m)"

definition Ash_Tree_step :: "nat \<Rightarrow> Forest \<Rightarrow> Forest" where
  "Ash_Tree_step k m = maybe_spread_infection k m"

section \<open>Forest\<close>

text \<open>
  \<open>count_type\<close> walks the scheduler's agents and counts. The agent set holds every tree of
  the store once, in whatever order, so the count is taken over the store.
\<close>

definition count_type :: "Forest \<Rightarrow> string \<Rightarrow> nat" where
  "count_type m tree_condition =
     length (filter (\<lambda>tree. condition tree = tree_condition) (schedule m))"

text \<open>
  One pass of the constructor's loop \<open>for i in range(num_of_agents)\<close>: indexing the
  shuffled positions raises \<open>IndexError\<close> past their end, \<open>place_agent\<close> raises when
  the cell is occupied, and the new tree is referred to by the grid cell and added to the
  scheduler.
\<close>

definition create_tree :: "coord list \<Rightarrow> nat \<Rightarrow> Forest \<Rightarrow> error + Forest" where
  "create_tree all_possible_positions i m =
     (if length all_possible_positions \<le> i then Inl IndexError
      else let p = all_possible_positions ! i;
               new_tree = \<lparr>unique_id = i, pos = p,
                           condition = (if fst p = 0 then ''Infected'' else ''Healthy'')\<rparr>
           in if map_of (grid m) p \<noteq> None then Inl CellNotEmpty
              else Inr (m\<lparr>grid := grid m @ [(p, length (schedule m))],
                          agent_keys := agent_keys m @ [length (schedule m)],
                          schedule := schedule m @ [new_tree]\<rparr>))"

fun for_range :: "nat list \<Rightarrow> (nat \<Rightarrow> 's \<Rightarrow> error + 's) \<Rightarrow> 's \<Rightarrow> error + 's" where
  "for_range [] body s = Inr s"
| "for_range (i # is) body s =
     (case body i s of Inl err \<Rightarrow> Inl err | Inr s' \<Rightarrow> for_range is body s')"

text \<open>
  The constructor. \<open>SingleGrid\<close> allocates an array of \<open>width\<close> by \<open>height\<close> cells before
  anything else is built, which raises \<open>ValueError\<close> for a negative dimension; a dimension
  of zero gives a grid with no cell.
\<close>

definition Forest_init :: "random_source \<Rightarrow> int \<Rightarrow> int \<Rightarrow> double \<Rightarrow> error + Forest" where
  "Forest_init rnd W H D =
     (if W < 0 \<or> H < 0 then Inl ValueError
      else
        let m = \<lparr>width = W, height = H, tree_density = D, running = True, steps = 0,
                 schedule = [], agent_keys = [], grid = [], datacollector = []\<rparr>;
            positions = [(x, y). x \<leftarrow> [0..W - 1], y \<leftarrow> [0..H - 1]];
            all_possible_positions = shuffle (rnd 0 (length positions)) positions
        in case num_of_agents W H D of
             Inl err \<Rightarrow> Inl err
           | Inr n \<Rightarrow> for_range [0..<nat n] (create_tree all_possible_positions) m)"

text \<open>
  \<open>Forest.step\<close>: the scheduler shuffles its agent set in place and calls each agent's
  \<open>step\<close> once, in the new order, which the set keeps for the next step; then a row of
  counts is collected; then the run is stopped when no tree is infected.
\<close>

definition agent_order :: "random_source \<Rightarrow> Forest \<Rightarrow> nat list" where
  "agent_order rnd m = shuffle (rnd (Suc (steps m)) (length (agent_keys m))) (agent_keys m)"

definition schedule_step :: "random_source \<Rightarrow> Forest \<Rightarrow> Forest" where
  "schedule_step rnd m =
     (fold Ash_Tree_step (agent_order rnd m) m)
       \<lparr>agent_keys := agent_order rnd m, steps := Suc (steps m)\<rparr>"

definition collect :: "Forest \<Rightarrow> Forest" where
  "collect m =
     m\<lparr>datacollector := datacollector m @
         [(count_type m ''Healthy'', count_type m ''Infected'', count_type m ''Dead'')]\<rparr>"

definition Forest_step :: "random_source \<Rightarrow> Forest \<Rightarrow> Forest" where
  "Forest_step rnd m =
     (let m1 = schedule_step rnd m;
          m2 = collect m1
      in if count_type m2 ''Infected'' = 0 then m2\<lparr>running := False\<rparr> else m2)"

section \<open>run\_model\<close>

text \<open>
  \<^verbatim>\<open>for i in range(max_steps):
      if not model.running: break
      model.step()\<close>
\<close>

fun run_loop :: "random_source \<Rightarrow> nat \<Rightarrow> Forest \<Rightarrow> Forest" where
  "run_loop rnd 0 m = m"
| "run_loop rnd (Suc n) m = (if \<not> running m then m else run_loop rnd n (Forest_step rnd m))"

definition run_model ::
  "random_source \<Rightarrow> int \<Rightarrow> int \<Rightarrow> double \<Rightarrow> int \<Rightarrow> error + (nat \<times> nat \<times> nat) list" where
  "run_model rnd W H D max_steps =
     (case Forest_init rnd W H D of
        Inl err \<Rightarrow> Inl err
      | Inr model \<Rightarrow> Inr (datacollector (run_loop rnd (nat max_steps) model)))"

section \<open>Notions used in the statements\<close>

text \<open>
  Two cells are Moore-adjacent when they differ and lie at distance at most one in each
  coordinate: the 8 cells around a position.
\<close>

definition moore_adjacent :: "coord \<Rightarrow> coord \<Rightarrow> bool" where
  "moore_adjacent p q = (q \<noteq> p \<and> \<bar>fst q - fst p\<bar> \<le> 1 \<and> \<bar>snd q - snd p\<bar> \<le> 1)"

text \<open>
  The state the constructor builds: the grid holds exactly the scheduled trees, each in the
  cell of its own position, no two in one cell, all of them inside the grid.
\<close>

definition wf_forest :: "Forest \<Rightarrow> bool" where
  "wf_forest m =
     (grid m = zip (map pos (schedule m)) [0..<length (schedule m)] \<and>
      distinct (map pos (schedule m)) \<and>
      (\<forall>t \<in> set (schedule m). \<not> out_of_bounds (width m) (height m) (pos t)))"

text \<open>
  \<open>Forest(3, 1, 1.0)\<close> when the shuffle leaves the positions in order: three trees in a
  row, the leftmost infected.
\<close>

definition row_forest :: Forest where
  "row_forest =
     \<lparr>width = 3, height = 1, tree_density = (1, 0), running = True, steps = 0,
      schedule = [\<lparr>unique_id = 0, pos = (0, 0), condition = ''Infected''\<rparr>,
                  \<lparr>unique_id = 1, pos = (1, 0), condition = ''Healthy''\<rparr>,
                  \<lparr>unique_id = 2, pos = (2, 0), condition = ''Healthy''\<rparr>],
      agent_keys = [0, 1, 2],
      grid = [((0, 0), 0), ((1, 0), 1), ((2, 0), 2)], datacollector = []\<rparr>"

text \<open>The scheduler's agent set holds every tree of the store exactly once.\<close>

definition keys_ok :: "Forest \<Rightarrow> bool" where
  "keys_ok m = (mset (agent_keys m) = mset [0..<length (schedule m)])"

text \<open>A single change of condition in the forward direction, or no change.\<close>

definition forward :: "string \<Rightarrow> string \<Rightarrow> bool" where
  "forward c c' =
     (c' = c \<or> (c = ''Healthy'' \<and> c' = ''Infected'') \<or> (c = ''Infected'' \<and> c' = ''Dead''))"

definition known_condition :: "string \<Rightarrow> bool" where
  "known_condition c = (c = ''Healthy'' \<or> c = ''Infected'' \<or> c = ''Dead'')"

definition all_known :: "Forest \<Rightarrow> bool" where
  "all_known m = (\<forall>t \<in> set (schedule m). known_condition (condition t))"

text \<open>The seeding rule of the constructor, and the model as the constructor leaves it.\<close>

definition seeded :: "Ash_Tree \<Rightarrow> bool" where
  "seeded t = (condition t = (if fst (pos t) = 0 then ''Infected'' else ''Healthy''))"

definition fresh :: "int \<Rightarrow> int \<Rightarrow> double \<Rightarrow> Forest \<Rightarrow> bool" where
  "fresh W H D m =
     (width m = W \<and> height m = H \<and> tree_density m = D \<and> running m \<and> steps m = 0 \<and>
      datacollector m = [] \<and> (\<forall>t \<in> set (schedule m). seeded t))"

text \<open>
  Two random sources for concrete runs: one whose shuffles leave every list in order, and
  one that leaves the positions in order and reverses the agent set at every step.
\<close>

definition in_order :: random_source where
  "in_order c n = [0..<n]"

definition reversed_steps :: random_source where
  "reversed_steps c n = (if c = 0 then [0..<n] else rev [0..<n])"

text \<open>The number of trees the constructor creates, or the exception it raises.\<close>

definition created :: "random_source \<Rightarrow> int \<Rightarrow> int \<Rightarrow> double \<Rightarrow> error + nat" where
  "created rnd W H D =
     (case Forest_init rnd W H D of Inl err \<Rightarrow> Inl err | Inr m \<Rightarrow> Inr (length (schedule m)))"

text \<open>
  The model after \<open>n\<close> passes of the creation loop over the shuffled positions \<open>ps\<close>,
  in closed form.
\<close>

definition planted :: "coord list \<Rightarrow> nat \<Rightarrow> Forest \<Rightarrow> Forest" where
  "planted ps n m =
     m\<lparr>schedule := map (\<lambda>i. \<lparr>unique_id = i, pos = ps ! i,
                              condition = (if fst (ps ! i) = 0 then ''Infected'' else ''Healthy'')\<rparr>)
                      [0..<n],
       agent_keys := [0..<n],
       grid := zip (take n ps) [0..<n]\<rparr>"


section \<open>Neighbours\<close>

text \<open>
  The cells \<open>get_neighborhood\<close> returns are the Moore-adjacent cells inside the grid, and in
  a well-formed forest \<open>get_neighbors\<close> returns the trees standing on them.
\<close>

lemma mem_cells:
  "((a, b) \<in> set (concat (map (\<lambda>dx. map (\<lambda>dy. (x + dx, y + dy)) [- 1, 0, 1]) [- 1, 0, 1]))) =
     (\<bar>a - x\<bar> \<le> (1::int) \<and> \<bar>b - y\<bar> \<le> (1::int))"
proof -
  have "((a, b) \<in> set (concat (map (\<lambda>dx. map (\<lambda>dy. (x + dx, y + dy)) [- 1, 0, 1]) [- 1, 0, 1]))) =
      ((a = x - 1 \<or> a = x \<or> a = x + 1) \<and> (b = y - 1 \<or> b = y \<or> b = y + 1))"
    by simp blast
  also have "\<dots> = (\<bar>a - x\<bar> \<le> 1 \<and> \<bar>b - y\<bar> \<le> 1)"
    by arith
  finally show ?thesis .
qed

lemma mem_get_neighborhood:
  "((a, b) \<in> set (get_neighborhood W H p)) =
     (moore_adjacent p (a, b) \<and> \<not> out_of_bounds W H (a, b))"
  unfolding get_neighborhood_def set_filter mem_Collect_eq mem_cells moore_adjacent_def
  by auto

lemma set_get_neighborhood:
  "set (get_neighborhood W H p) = {c. moore_adjacent p c \<and> \<not> out_of_bounds W H c}"
  by (auto simp: mem_get_neighborhood)

lemma length_fold_infect: "length (fold infect ns ts) = length ts"
  by (induction ns arbitrary: ts) (auto simp: infect_def)

lemma nth_fold_infect:
  "j < length ts \<Longrightarrow>
   fold infect ns ts ! j =
     (if j \<in> set ns \<and> condition (ts ! j) = ''Healthy''
      then (ts ! j)\<lparr>condition := ''Infected''\<rparr> else ts ! j)"
proof (induction ns arbitrary: ts)
  case Nil
  then show ?case by simp
next
  case (Cons n ns)
  have len: "j < length (infect n ts)" using Cons.prems by (simp add: infect_def)
  show ?case
    using Cons.prems by (simp add: Cons.IH [OF len]) (auto simp: infect_def nth_list_update)
qed

lemma map_of_grid:
  assumes "wf_forest m"
  shows "(map_of (grid m) p = Some j) = (j < length (schedule m) \<and> pos (schedule m ! j) = p)"
proof -
  let ?ps = "map pos (schedule m)" and ?n = "length (schedule m)"
  have g: "grid m = zip ?ps [0..<?n]" and d: "distinct ?ps"
    using assms by (simp_all add: wf_forest_def)
  show ?thesis
  proof
    assume "map_of (grid m) p = Some j"
    then have "(p, j) \<in> set (zip ?ps [0..<?n])" using g by (auto dest: map_of_SomeD)
    then show "j < ?n \<and> pos (schedule m ! j) = p"
      by (auto simp: in_set_zip)
  next
    assume a: "j < ?n \<and> pos (schedule m ! j) = p"
    have "map_of (zip ?ps [0..<?n]) (?ps ! j) = Some ([0..<?n] ! j)"
      using a d by (intro map_of_zip_nth) simp_all
    then show "map_of (grid m) p = Some j" using a g by simp
  qed
qed

lemma set_get_neighbors:
  assumes "wf_forest m"
  shows "set (get_neighbors (grid m) (width m) (height m) p) =
         {j. j < length (schedule m) \<and> moore_adjacent p (pos (schedule m ! j))}"
proof -
  have inb: "\<And>j. j < length (schedule m) \<Longrightarrow>
      \<not> out_of_bounds (width m) (height m) (pos (schedule m ! j))"
    using assms by (simp add: wf_forest_def)
  have "set (get_neighbors (grid m) (width m) (height m) p) =
      {j. \<exists>c \<in> set (get_neighborhood (width m) (height m) p). map_of (grid m) c = Some j}"
    unfolding get_neighbors_def List.map_filter_def by force
  also have "\<dots> = {j. j < length (schedule m) \<and> moore_adjacent p (pos (schedule m ! j))}"
    using inb by (auto simp: map_of_grid [OF assms] set_get_neighborhood)
  finally show ?thesis .
qed

section \<open>One visit\<close>

text \<open>
  A visit is a call of \<open>Ash_Tree.step\<close>. It changes nothing but conditions, and its
  effect on every tree is known in closed form.
\<close>

lemma visit_not_infected:
  "\<not> (k < length (schedule m) \<and> condition (schedule m ! k) = ''Infected'') \<Longrightarrow>
   Ash_Tree_step k m = m"
  by (auto simp: Ash_Tree_step_def maybe_spread_infection_def Let_def)

lemma visit_frame:
  "width (Ash_Tree_step k m) = width m"
  "height (Ash_Tree_step k m) = height m"
  "tree_density (Ash_Tree_step k m) = tree_density m"
  "running (Ash_Tree_step k m) = running m"
  "steps (Ash_Tree_step k m) = steps m"
  "grid (Ash_Tree_step k m) = grid m"
  "datacollector (Ash_Tree_step k m) = datacollector m"
  "length (schedule (Ash_Tree_step k m)) = length (schedule m)"
  "agent_keys (Ash_Tree_step k m) = agent_keys m"
  by (simp_all add: Ash_Tree_step_def maybe_spread_infection_def Let_def length_fold_infect)

lemma nth_visit_general:
  assumes "k < length (schedule m)" "condition (schedule m ! k) = ''Infected''"
    "j < length (schedule m)"
  shows "schedule (Ash_Tree_step k m) ! j =
     (if j = k then (schedule m ! k)\<lparr>condition := ''Dead''\<rparr>
      else if j \<in> set (get_neighbors (grid m) (width m) (height m) (pos (schedule m ! k))) \<and>
              condition (schedule m ! j) = ''Healthy''
           then (schedule m ! j)\<lparr>condition := ''Infected''\<rparr>
           else schedule m ! j)"
  using assms
  by (simp add: Ash_Tree_step_def maybe_spread_infection_def Let_def length_fold_infect
      nth_list_update nth_fold_infect)

lemma nth_visit:
  assumes "wf_forest m" "k < length (schedule m)" "condition (schedule m ! k) = ''Infected''"
    "j < length (schedule m)"
  shows "schedule (Ash_Tree_step k m) ! j =
     (if j = k then (schedule m ! k)\<lparr>condition := ''Dead''\<rparr>
      else if moore_adjacent (pos (schedule m ! k)) (pos (schedule m ! j)) \<and>
              condition (schedule m ! j) = ''Healthy''
           then (schedule m ! j)\<lparr>condition := ''Infected''\<rparr>
           else schedule m ! j)"
  using assms(2-4) by (simp add: nth_visit_general set_get_neighbors [OF assms(1)])

lemma visit_infected_adjacent:
  assumes "wf_forest m" "k < length (schedule m)" "condition (schedule m ! k) = ''Infected''"
    "j < length (schedule m)"
    "moore_adjacent (pos (schedule m ! k)) (pos (schedule m ! j)) \<and>
     condition (schedule m ! j) = ''Healthy''"
  shows "condition (schedule (Ash_Tree_step k m) ! j) = ''Infected''"
proof -
  have "j \<noteq> k" using assms(3,5) by auto
  then show ?thesis
    using assms(5) by (simp add: nth_visit [OF assms(1-4)])
qed

text \<open>
  Claim C1. When a tree is visited and its condition is \<open>Infected\<close> at that moment, every
  tree in one of the 8 Moore-adjacent cells whose condition is \<open>Healthy\<close> at that moment
  becomes \<open>Infected\<close>, and the visited tree itself becomes \<open>Dead\<close> within the same
  visit; when its condition is not \<open>Infected\<close>, the visit changes nothing.
\<close>

theorem visit_infected_spreads_and_dies:
  assumes "wf_forest m" and "k < length (schedule m)"
  shows "(condition (schedule m ! k) = ''Infected'' \<longrightarrow>
            (\<forall>j < length (schedule m).
                moore_adjacent (pos (schedule m ! k)) (pos (schedule m ! j)) \<and>
                condition (schedule m ! j) = ''Healthy'' \<longrightarrow>
                condition (schedule (Ash_Tree_step k m) ! j) = ''Infected'') \<and>
            condition (schedule (Ash_Tree_step k m) ! k) = ''Dead'') \<and>
         (condition (schedule m ! k) \<noteq> ''Infected'' \<longrightarrow> Ash_Tree_step k m = m)"
proof (intro conjI impI allI)
  fix j
  assume inf: "condition (schedule m ! k) = ''Infected''" and j: "j < length (schedule m)"
    and adj: "moore_adjacent (pos (schedule m ! k)) (pos (schedule m ! j)) \<and>
                condition (schedule m ! j) = ''Healthy''"
  have "j \<noteq> k" using adj inf by auto
  then show "condition (schedule (Ash_Tree_step k m) ! j) = ''Infected''"
    using adj by (simp add: nth_visit [OF assms inf j])
next
  assume inf: "condition (schedule m ! k) = ''Infected''"
  show "condition (schedule (Ash_Tree_step k m) ! k) = ''Dead''"
    by (simp add: nth_visit [OF assms inf assms(2)])
next
  assume "condition (schedule m ! k) \<noteq> ''Infected''"
  then show "Ash_Tree_step k m = m" by (simp add: visit_not_infected)
qed

theorem visit_infected_spreads_and_dies_witness:
  "wf_forest row_forest \<and> (0::nat) < length (schedule row_forest) \<and>
   condition (schedule row_forest ! 0) = ''Infected'' \<and>
   moore_adjacent (pos (schedule row_forest ! 0)) (pos (schedule row_forest ! 1)) \<and>
   condition (schedule row_forest ! 1) = ''Healthy'' \<and>
   condition (schedule (Ash_Tree_step 0 row_forest) ! 1) = ''Infected'' \<and>
   condition (schedule (Ash_Tree_step 0 row_forest) ! 0) = ''Dead'' \<and>
   condition (schedule row_forest ! 2) \<noteq> ''Infected'' \<and>
   Ash_Tree_step 2 row_forest = row_forest"
proof -
  have wf: "wf_forest row_forest"
    by (simp add: wf_forest_def row_forest_def out_of_bounds_def upt_rec)
  have facts: "(0::nat) < length (schedule row_forest)" "(1::nat) < length (schedule row_forest)"
    "(2::nat) < length (schedule row_forest)"
    "condition (schedule row_forest ! 0) = ''Infected''"
    "moore_adjacent (pos (schedule row_forest ! 0)) (pos (schedule row_forest ! 1))"
    "condition (schedule row_forest ! 1) = ''Healthy''"
    "condition (schedule row_forest ! 2) \<noteq> ''Infected''"
    by (simp_all add: row_forest_def moore_adjacent_def)
  show ?thesis
    using wf facts
      visit_infected_spreads_and_dies [OF wf facts(1)]
      visit_infected_spreads_and_dies [OF wf facts(3)]
    by blast
qed

section \<open>Visits within a step\<close>

text \<open>
  What one visit can do to any tree, and what a sequence of visits preserves.
\<close>

lemma visit_cases:
  assumes "j < length (schedule m)"
  shows "schedule (Ash_Tree_step k m) ! j = schedule m ! j \<or>
         (condition (schedule m ! j) = ''Healthy'' \<and> j \<noteq> k \<and>
          schedule (Ash_Tree_step k m) ! j = (schedule m ! j)\<lparr>condition := ''Infected''\<rparr>) \<or>
         (condition (schedule m ! j) = ''Infected'' \<and> j = k \<and>
          schedule (Ash_Tree_step k m) ! j = (schedule m ! j)\<lparr>condition := ''Dead''\<rparr>)"
proof (cases "k < length (schedule m) \<and> condition (schedule m ! k) = ''Infected''")
  case True
  then show ?thesis using assms by (auto simp: nth_visit_general)
next
  case False
  then show ?thesis by (simp add: visit_not_infected)
qed

lemma visit_forward:
  "j < length (schedule m) \<Longrightarrow>
   forward (condition (schedule m ! j)) (condition (schedule (Ash_Tree_step k m) ! j))"
  using visit_cases [of j m k] by (auto simp: forward_def)

lemma visit_pos:
  "j < length (schedule m) \<Longrightarrow> pos (schedule (Ash_Tree_step k m) ! j) = pos (schedule m ! j)"
  using visit_cases [of j m k] by auto

lemma visit_dead:
  "j < length (schedule m) \<Longrightarrow> condition (schedule m ! j) = ''Dead'' \<Longrightarrow>
   condition (schedule (Ash_Tree_step k m) ! j) = ''Dead''"
  using visit_cases [of j m k] by auto

lemma visit_other:
  "j < length (schedule m) \<Longrightarrow> j \<noteq> k \<Longrightarrow>
   condition (schedule m ! j) = ''Healthy'' \<or> condition (schedule m ! j) = ''Infected'' \<Longrightarrow>
   condition (schedule (Ash_Tree_step k m) ! j) = ''Healthy'' \<or>
   condition (schedule (Ash_Tree_step k m) ! j) = ''Infected''"
  using visit_cases [of j m k] by auto

lemma visit_known:
  "j < length (schedule m) \<Longrightarrow> known_condition (condition (schedule m ! j)) \<Longrightarrow>
   known_condition (condition (schedule (Ash_Tree_step k m) ! j))"
  using visit_cases [of j m k] by (auto simp: known_condition_def)

lemma visits_frame:
  "width (fold Ash_Tree_step ks m) = width m"
  "height (fold Ash_Tree_step ks m) = height m"
  "tree_density (fold Ash_Tree_step ks m) = tree_density m"
  "running (fold Ash_Tree_step ks m) = running m"
  "steps (fold Ash_Tree_step ks m) = steps m"
  "grid (fold Ash_Tree_step ks m) = grid m"
  "datacollector (fold Ash_Tree_step ks m) = datacollector m"
  "length (schedule (fold Ash_Tree_step ks m)) = length (schedule m)"
  "agent_keys (fold Ash_Tree_step ks m) = agent_keys m"
  by (induction ks arbitrary: m) (simp_all add: visit_frame)

lemma visits_dead:
  "j < length (schedule m) \<Longrightarrow> condition (schedule m ! j) = ''Dead'' \<Longrightarrow>
   condition (schedule (fold Ash_Tree_step ks m) ! j) = ''Dead''"
  by (induction ks arbitrary: m) (simp_all add: visit_frame visit_dead)

lemma visits_pos:
  "j < length (schedule m) \<Longrightarrow>
   pos (schedule (fold Ash_Tree_step ks m) ! j) = pos (schedule m ! j)"
  by (induction ks arbitrary: m) (simp_all add: visit_frame visit_pos)

lemma visits_known:
  "j < length (schedule m) \<Longrightarrow> known_condition (condition (schedule m ! j)) \<Longrightarrow>
   known_condition (condition (schedule (fold Ash_Tree_step ks m) ! j))"
  by (induction ks arbitrary: m) (simp_all add: visit_frame visit_known)

lemma visits_other:
  "j < length (schedule m) \<Longrightarrow> j \<notin> set ks \<Longrightarrow>
   condition (schedule m ! j) = ''Healthy'' \<or> condition (schedule m ! j) = ''Infected'' \<Longrightarrow>
   condition (schedule (fold Ash_Tree_step ks m) ! j) = ''Healthy'' \<or>
   condition (schedule (fold Ash_Tree_step ks m) ! j) = ''Infected''"
proof (induction ks arbitrary: m)
  case Nil
  then show ?case by simp
next
  case (Cons k ks)
  have "condition (schedule (Ash_Tree_step k m) ! j) = ''Healthy'' \<or>
        condition (schedule (Ash_Tree_step k m) ! j) = ''Infected''"
    using Cons.prems by (intro visit_other) auto
  then show ?case
    using Cons.prems by (simp add: Cons.IH visit_frame)
qed

lemma visits_no_infected:
  "\<forall>t \<in> set (schedule m). condition t \<noteq> ''Infected'' \<Longrightarrow> fold Ash_Tree_step ks m = m"
proof (induction ks)
  case Nil
  show ?case by simp
next
  case (Cons k ks)
  have "Ash_Tree_step k m = m"
    using Cons.prems by (intro visit_not_infected) auto
  then show ?case using Cons by simp
qed

lemma count_type_zero:
  "(count_type m c = 0) = (\<forall>t \<in> set (schedule m). condition t \<noteq> c)"
  by (auto simp: count_type_def filter_empty_conv)

lemma schedule_step_order:
  "schedule_step rnd m =
     (fold Ash_Tree_step (agent_order rnd m) m)
       \<lparr>agent_keys := agent_order rnd m, steps := Suc (steps m)\<rparr>"
  by (simp add: schedule_step_def)

lemma Forest_step_frame:
  "width (Forest_step rnd m) = width m"
  "height (Forest_step rnd m) = height m"
  "tree_density (Forest_step rnd m) = tree_density m"
  "steps (Forest_step rnd m) = Suc (steps m)"
  "grid (Forest_step rnd m) = grid m"
  "length (schedule (Forest_step rnd m)) = length (schedule m)"
  "schedule (Forest_step rnd m) = schedule (fold Ash_Tree_step (agent_order rnd m) m)"
  "agent_keys (Forest_step rnd m) = agent_order rnd m"
  by (simp_all add: Forest_step_def collect_def schedule_step_order Let_def visits_frame)

lemma Forest_step_history:
  "datacollector (Forest_step rnd m) = datacollector m @
     [(count_type (Forest_step rnd m) ''Healthy'', count_type (Forest_step rnd m) ''Infected'',
       count_type (Forest_step rnd m) ''Dead'')]"
  by (simp add: Forest_step_def collect_def schedule_step_order Let_def visits_frame count_type_def)

lemma Forest_step_running:
  "running (Forest_step rnd m) =
     (running m \<and> count_type (Forest_step rnd m) ''Infected'' \<noteq> 0)"
  by (simp add: Forest_step_def collect_def schedule_step_order Let_def visits_frame count_type_def)

text \<open>A valid random source visits every tree exactly once per step.\<close>

lemma mset_shuffle:
  assumes "mset perm = mset [0..<length xs]"
  shows "mset (shuffle perm xs) = mset xs"
proof -
  have "mset (shuffle perm xs) = image_mset ((!) xs) (mset perm)"
    by (simp add: shuffle_def)
  also have "\<dots> = mset (map ((!) xs) [0..<length xs])"
    by (simp add: assms)
  finally show ?thesis by (simp add: map_nth)
qed

lemma mset_agent_order:
  assumes "valid_random rnd" "keys_ok m"
  shows "mset (agent_order rnd m) = mset [0..<length (schedule m)]"
proof -
  have "mset (agent_order rnd m) = mset (agent_keys m)"
    unfolding agent_order_def using assms(1) by (intro mset_shuffle) (simp add: valid_random_def)
  then show ?thesis using assms(2) by (simp add: keys_ok_def)
qed

lemma keys_ok_visits: "keys_ok m \<Longrightarrow> keys_ok (fold Ash_Tree_step ks m)"
  by (simp add: keys_ok_def visits_frame)

lemma keys_ok_Forest_step:
  assumes "valid_random rnd" "keys_ok m"
  shows "keys_ok (Forest_step rnd m)"
  using mset_agent_order [OF assms] by (simp add: keys_ok_def Forest_step_frame(6,8))

lemma agent_order_split:
  assumes "valid_random rnd" "keys_ok m" "k < length (schedule m)"
  shows "\<exists>pre post. agent_order rnd m = pre @ k # post \<and> k \<notin> set pre \<and> k \<notin> set post"
proof -
  have ms: "mset (agent_order rnd m) = mset [0..<length (schedule m)]"
    using assms(1,2) by (rule mset_agent_order)
  have "set (agent_order rnd m) = set [0..<length (schedule m)]"
    using ms by (rule mset_eq_setD)
  then have "k \<in> set (agent_order rnd m)" using assms(3) by simp
  then obtain pre post where sp: "agent_order rnd m = pre @ k # post"
    by (auto dest: split_list)
  have "distinct (agent_order rnd m)"
    using ms by (metis distinct_upt mset_eq_imp_distinct_iff)
  then have "k \<notin> set pre \<and> k \<notin> set post" using sp by simp
  then show ?thesis using sp by blast
qed

text \<open>Only its own visit ends the infection of a tree.\<close>

lemma infected_persists:
  "j < length (schedule m) \<Longrightarrow> j \<notin> set ks \<Longrightarrow>
   condition (schedule m ! j) = ''Infected'' \<Longrightarrow>
   condition (schedule (fold Ash_Tree_step ks m) ! j) = ''Infected''"
proof (induction ks arbitrary: m)
  case Nil
  then show ?case by simp
next
  case (Cons k ks)
  have "condition (schedule (Ash_Tree_step k m) ! j) = ''Infected''"
    using visit_cases [of j m k] Cons.prems by auto
  then show ?case
    using Cons.prems by (simp add: Cons.IH visit_frame)
qed

text \<open>The visits of a step keep the grid and the schedule in agreement.\<close>

lemma wf_visits:
  assumes "wf_forest m"
  shows "wf_forest (fold Ash_Tree_step ks m)"
proof -
  let ?m' = "fold Ash_Tree_step ks m"
  have same: "map pos (schedule ?m') = map pos (schedule m)"
    by (intro nth_equalityI) (simp_all add: visits_frame visits_pos)
  have inb: "\<And>ts W H. (\<forall>t \<in> set ts. \<not> out_of_bounds W H (pos t)) =
      (\<forall>p \<in> set (map pos ts). \<not> out_of_bounds W H p)"
    by simp
  have "\<forall>p \<in> set (map pos (schedule m)). \<not> out_of_bounds (width m) (height m) p"
    using assms unfolding wf_forest_def inb by blast
  then have "\<forall>t \<in> set (schedule ?m'). \<not> out_of_bounds (width ?m') (height ?m') (pos t)"
    unfolding inb same by (simp only: visits_frame(1,2))
  then show ?thesis
    using assms unfolding wf_forest_def same by (simp only: visits_frame(6,8))
qed

lemma wf_Forest_step:
  assumes "wf_forest m"
  shows "wf_forest (Forest_step rnd m)"
proof -
  have same: "map pos (schedule (Forest_step rnd m)) = map pos (schedule m)"
    by (intro nth_equalityI) (simp_all add: Forest_step_frame visits_frame visits_pos)
  have inb: "\<And>ts W H. (\<forall>t \<in> set ts. \<not> out_of_bounds W H (pos t)) =
      (\<forall>p \<in> set (map pos ts). \<not> out_of_bounds W H p)"
    by simp
  have "\<forall>p \<in> set (map pos (schedule m)). \<not> out_of_bounds (width m) (height m) p"
    using assms unfolding wf_forest_def inb by blast
  then have "\<forall>t \<in> set (schedule (Forest_step rnd m)).
      \<not> out_of_bounds (width (Forest_step rnd m)) (height (Forest_step rnd m)) (pos t)"
    unfolding inb same by (simp only: Forest_step_frame(1,2))
  then show ?thesis
    using assms unfolding wf_forest_def same by (simp only: Forest_step_frame(5,6))
qed

text \<open>Concrete runs, evaluated.\<close>

lemma valid_in_order: "valid_random in_order"
  by (simp add: valid_random_def in_order_def)

lemma valid_reversed_steps: "valid_random reversed_steps"
  by (simp add: valid_random_def reversed_steps_def)

lemma init_row: "Forest_init in_order 3 1 (1, 0) = Inr row_forest"
  by code_simp

lemma init_row_reversed: "Forest_init reversed_steps 3 1 (1, 0) = Inr row_forest"
  by code_simp

lemma run_row_reversed:
  "run_model reversed_steps 3 1 (1, 0) 10 = Inr [(1, 1, 1), (0, 0, 3)]"
  by code_simp

text \<open>
  Claim C2, as amended. Within a step every tree is visited exactly once, and a tree acts at
  its own visit exactly when its condition is \<open>Infected\<close> at that moment. A tree that is
  still \<open>Healthy\<close> when it is visited infects no neighbour at that visit and is not
  \<open>Dead\<close> at the end of the step. A tree that is \<open>Healthy\<close> when an \<open>Infected\<close>
  neighbour is visited earlier in the step is \<open>Infected\<close> from that visit on and still
  at its own visit. A tree that is \<open>Infected\<close> at its own visit infects its \<open>Healthy\<close>
  neighbours and is \<open>Dead\<close> at the end of that same step.
\<close>

theorem susceptible_at_visit_does_not_act:
  assumes "valid_random rnd" and "keys_ok m" and "k < length (schedule m)"
  shows "(\<exists>pre post. agent_order rnd m = pre @ k # post) \<and>
         (\<forall>pre post. agent_order rnd m = pre @ k # post \<longrightarrow>
            k \<notin> set pre \<and> k \<notin> set post \<and>
            (condition (schedule (fold Ash_Tree_step pre m) ! k) = ''Healthy'' \<longrightarrow>
               Ash_Tree_step k (fold Ash_Tree_step pre m) = fold Ash_Tree_step pre m \<and>
               condition (schedule (Forest_step rnd m) ! k) \<noteq> ''Dead'') \<and>
            (condition (schedule (fold Ash_Tree_step pre m) ! k) = ''Infected'' \<longrightarrow>
               condition (schedule (Forest_step rnd m) ! k) = ''Dead'' \<and>
               (wf_forest m \<longrightarrow>
                  (\<forall>j < length (schedule m).
                      moore_adjacent (pos (schedule m ! k)) (pos (schedule m ! j)) \<and>
                      condition (schedule (fold Ash_Tree_step pre m) ! j) = ''Healthy'' \<longrightarrow>
                      condition (schedule (Ash_Tree_step k (fold Ash_Tree_step pre m)) ! j) =
                        ''Infected''))) \<and>
            (wf_forest m \<longrightarrow>
               (\<forall>pre1 i pre2.
                   pre = pre1 @ i # pre2 \<and>
                   condition (schedule (fold Ash_Tree_step pre1 m) ! i) = ''Infected'' \<and>
                   moore_adjacent (pos (schedule m ! i)) (pos (schedule m ! k)) \<and>
                   condition (schedule (fold Ash_Tree_step pre1 m) ! k) = ''Healthy'' \<longrightarrow>
                   condition (schedule (fold Ash_Tree_step pre m) ! k) = ''Infected'')))"
proof (intro conjI allI impI)
  show "\<exists>pre post. agent_order rnd m = pre @ k # post"
    using agent_order_split [OF assms] by blast
next
  fix pre post
  assume sp: "agent_order rnd m = pre @ k # post"
  have ms: "mset (agent_order rnd m) = mset [0..<length (schedule m)]"
    using assms(1,2) by (rule mset_agent_order)
  then have "distinct (agent_order rnd m)"
    by (metis distinct_upt mset_eq_imp_distinct_iff)
  then show pre: "k \<notin> set pre" and post: "k \<notin> set post"
    using sp by simp_all
  have keys: "set (agent_order rnd m) = set [0..<length (schedule m)]"
    using ms by (rule mset_eq_setD)
  define m1 where "m1 = fold Ash_Tree_step pre m"
  have len: "k < length (schedule m1)"
    using assms(3) by (simp add: m1_def visits_frame)
  have final: "schedule (Forest_step rnd m) = schedule (fold Ash_Tree_step post (Ash_Tree_step k m1))"
    by (simp add: Forest_step_frame sp m1_def)
  {
    assume h: "condition (schedule (fold Ash_Tree_step pre m) ! k) = ''Healthy''"
    then have h': "condition (schedule m1 ! k) = ''Healthy''"
      by (simp add: m1_def)
    then have same: "Ash_Tree_step k m1 = m1"
      by (intro visit_not_infected) simp
    then show "Ash_Tree_step k (fold Ash_Tree_step pre m) = fold Ash_Tree_step pre m"
      by (simp add: m1_def)
    have "condition (schedule (fold Ash_Tree_step post m1) ! k) = ''Healthy'' \<or>
          condition (schedule (fold Ash_Tree_step post m1) ! k) = ''Infected''"
      using len post h' by (intro visits_other) simp_all
    then show "condition (schedule (Forest_step rnd m) ! k) \<noteq> ''Dead''"
      using same final by auto
  }
  {
    assume i: "condition (schedule (fold Ash_Tree_step pre m) ! k) = ''Infected''"
    then have i': "condition (schedule m1 ! k) = ''Infected''"
      by (simp add: m1_def)
    then have "condition (schedule (Ash_Tree_step k m1) ! k) = ''Dead''"
      using len by (simp add: nth_visit_general)
    then show "condition (schedule (Forest_step rnd m) ! k) = ''Dead''"
      using len by (simp add: final visits_dead visit_frame)
    fix j
    assume wf: "wf_forest m" and j: "j < length (schedule m)"
      and adj: "moore_adjacent (pos (schedule m ! k)) (pos (schedule m ! j)) \<and>
                condition (schedule (fold Ash_Tree_step pre m) ! j) = ''Healthy''"
    have wf1: "wf_forest m1" unfolding m1_def using wf by (rule wf_visits)
    have j1: "j < length (schedule m1)" using j by (simp add: m1_def visits_frame)
    have "moore_adjacent (pos (schedule m1 ! k)) (pos (schedule m1 ! j)) \<and>
          condition (schedule m1 ! j) = ''Healthy''"
      using adj assms(3) j by (simp add: m1_def visits_pos)
    then have "condition (schedule (Ash_Tree_step k m1) ! j) = ''Infected''"
      using visit_infected_adjacent [OF wf1 len i' j1] by simp
    then show "condition (schedule (Ash_Tree_step k (fold Ash_Tree_step pre m)) ! j) = ''Infected''"
      by (simp add: m1_def)
  }
  {
    fix pre1 i pre2
    assume wf: "wf_forest m"
      and h: "pre = pre1 @ i # pre2 \<and>
              condition (schedule (fold Ash_Tree_step pre1 m) ! i) = ''Infected'' \<and>
              moore_adjacent (pos (schedule m ! i)) (pos (schedule m ! k)) \<and>
              condition (schedule (fold Ash_Tree_step pre1 m) ! k) = ''Healthy''"
    define m0 where "m0 = fold Ash_Tree_step pre1 m"
    have "i \<in> set (agent_order rnd m)" using sp h by simp
    then have i: "i < length (schedule m0)"
      using keys by (simp add: m0_def visits_frame)
    have k: "k < length (schedule m0)"
      using assms(3) by (simp add: m0_def visits_frame)
    have wf0: "wf_forest m0" unfolding m0_def using wf by (rule wf_visits)
    have inf: "condition (schedule m0 ! i) = ''Infected''"
      using h by (simp add: m0_def)
    have "moore_adjacent (pos (schedule m0 ! i)) (pos (schedule m0 ! k)) \<and>
          condition (schedule m0 ! k) = ''Healthy''"
      using h i k by (simp add: m0_def visits_pos visits_frame)
    then have "condition (schedule (Ash_Tree_step i m0) ! k) = ''Infected''"
      using visit_infected_adjacent [OF wf0 i inf k] by simp
    moreover have "k \<notin> set pre2" using pre h by simp
    moreover have "k < length (schedule (Ash_Tree_step i m0))"
      using k by (simp add: visit_frame)
    ultimately have "condition (schedule (fold Ash_Tree_step pre2 (Ash_Tree_step i m0)) ! k) =
        ''Infected''"
      by (intro infected_persists)
    then show "condition (schedule (fold Ash_Tree_step pre m) ! k) = ''Infected''"
      using h by (simp add: m0_def)
  }
qed

theorem susceptible_at_visit_does_not_act_witness:
  "valid_random reversed_steps \<and> (2::nat) < length (schedule row_forest) \<and>
   agent_order reversed_steps row_forest = [] @ 2 # [1, 0] \<and>
   condition (schedule (fold Ash_Tree_step [] row_forest) ! 2) = ''Healthy'' \<and>
   Ash_Tree_step 2 (fold Ash_Tree_step [] row_forest) = fold Ash_Tree_step [] row_forest \<and>
   condition (schedule (Forest_step reversed_steps row_forest) ! 2) \<noteq> ''Dead'' \<and>
   valid_random in_order \<and> (1::nat) < length (schedule row_forest) \<and>
   agent_order in_order row_forest = [0] @ 1 # [2] \<and>
   condition (schedule (fold Ash_Tree_step [0] row_forest) ! 1) = ''Infected'' \<and>
   condition (schedule (Forest_step in_order row_forest) ! 1) = ''Dead'' \<and>
   wf_forest row_forest \<and> (2::nat) < length (schedule row_forest) \<and>
   moore_adjacent (pos (schedule row_forest ! 1)) (pos (schedule row_forest ! 2)) \<and>
   condition (schedule (fold Ash_Tree_step [0] row_forest) ! 2) = ''Healthy'' \<and>
   condition (schedule (Ash_Tree_step 1 (fold Ash_Tree_step [0] row_forest)) ! 2) = ''Infected'' \<and>
   keys_ok row_forest \<and>
   agent_order in_order row_forest = ([0] @ [1]) @ 2 # [] \<and> [0] @ [1] = [0] @ 1 # [] \<and>
   condition (schedule (fold Ash_Tree_step [0] row_forest) ! 1) = ''Infected'' \<and>
   moore_adjacent (pos (schedule row_forest ! 1)) (pos (schedule row_forest ! 2)) \<and>
   condition (schedule (fold Ash_Tree_step ([0] @ [1]) row_forest) ! 2) = ''Infected''"
proof -
  have len: "(2::nat) < length (schedule row_forest)" "(1::nat) < length (schedule row_forest)"
    by (simp_all add: row_forest_def)
  have keys: "keys_ok row_forest"
    by (simp add: keys_ok_def row_forest_def upt_rec)
  have o3: "agent_order in_order row_forest = ([0] @ [1]) @ 2 # []"
    and sp3: "[0] @ [1] = [0] @ 1 # ([]::nat list)"
    by code_simp+
  have o2: "agent_order reversed_steps row_forest = [] @ 2 # [1, 0]"
    and h2: "condition (schedule (fold Ash_Tree_step [] row_forest) ! 2) = ''Healthy''"
    and o1: "agent_order in_order row_forest = [0] @ 1 # [2]"
    and h1: "condition (schedule (fold Ash_Tree_step [0] row_forest) ! 1) = ''Infected''"
    and adj: "moore_adjacent (pos (schedule row_forest ! 1)) (pos (schedule row_forest ! 2))"
    and h3: "condition (schedule (fold Ash_Tree_step [0] row_forest) ! 2) = ''Healthy''"
    by code_simp+
  have wf: "wf_forest row_forest"
    by (simp add: wf_forest_def row_forest_def out_of_bounds_def upt_rec)
  note at_2_reversed =
    susceptible_at_visit_does_not_act [OF valid_reversed_steps keys len(1),
      THEN conjunct2, THEN spec, THEN spec, THEN mp, OF o2]
  note at_1 =
    susceptible_at_visit_does_not_act [OF valid_in_order keys len(2),
      THEN conjunct2, THEN spec, THEN spec, THEN mp, OF o1]
  note at_2 =
    susceptible_at_visit_does_not_act [OF valid_in_order keys len(1),
      THEN conjunct2, THEN spec, THEN spec, THEN mp, OF o3]
  have a: "Ash_Tree_step 2 (fold Ash_Tree_step [] row_forest) = fold Ash_Tree_step [] row_forest \<and>
      condition (schedule (Forest_step reversed_steps row_forest) ! 2) \<noteq> ''Dead''"
    using at_2_reversed h2 by blast
  have b: "condition (schedule (Forest_step in_order row_forest) ! 1) = ''Dead''"
    using at_1 h1 by blast
  have c: "condition (schedule (Ash_Tree_step 1 (fold Ash_Tree_step [0] row_forest)) ! 2) =
      ''Infected''"
    using at_1 h1 wf len(1) adj h3 by blast
  have d: "condition (schedule (fold Ash_Tree_step ([0] @ [1]) row_forest) ! 2) = ''Infected''"
    using at_2 wf sp3 h1 adj h3 by blast
  show ?thesis
    using valid_reversed_steps valid_in_order len o2 h2 o1 h1 adj h3 wf keys o3 sp3 a b c d
    by simp
qed

text \<open>
  The run \<open>Forest(3, 1, 1.0)\<close> with the trees visited from left to right: the middle tree
  is \<open>Healthy\<close> when the step starts, is infected by the visit of the left tree, and at
  its own visit, later in the same step, infects the right tree and dies. One step kills all
  three trees, so a tree that was \<open>Healthy\<close> at the start of a step does infect a
  neighbour and become \<open>Dead\<close> within that step.
\<close>

theorem newly_infected_acts_in_same_step:
  "Forest_init in_order 3 1 (1, 0) = Inr row_forest \<and>
   map condition (schedule row_forest) = [''Infected'', ''Healthy'', ''Healthy''] \<and>
   agent_order in_order row_forest = [0, 1, 2] \<and>
   map condition (schedule (fold Ash_Tree_step [0] row_forest)) =
     [''Dead'', ''Infected'', ''Healthy''] \<and>
   map condition (schedule (fold Ash_Tree_step [0, 1] row_forest)) =
     [''Dead'', ''Dead'', ''Infected''] \<and>
   map condition (schedule (Forest_step in_order row_forest)) = [''Dead'', ''Dead'', ''Dead'']"
  by code_simp

text \<open>
  Claim C10. In a state where no tree is \<open>Infected\<close>, one step leaves every tree as it
  is, and the row the step appends to the history has an \<open>Infected\<close> count of zero and
  the \<open>Healthy\<close> and \<open>Dead\<close> counts of the state before the step.
\<close>

theorem no_infected_absorbing:
  assumes "count_type m ''Infected'' = 0"
  shows "schedule (Forest_step rnd m) = schedule m \<and>
         datacollector (Forest_step rnd m) =
           datacollector m @ [(count_type m ''Healthy'', 0, count_type m ''Dead'')]"
proof -
  have "fold Ash_Tree_step (agent_order rnd m) m = m"
    using assms by (intro visits_no_infected) (simp add: count_type_zero)
  then have sch: "schedule (Forest_step rnd m) = schedule m"
    by (simp add: Forest_step_frame)
  then have "\<And>c. count_type (Forest_step rnd m) c = count_type m c"
    by (simp add: count_type_def)
  then show ?thesis
    using sch assms by (simp add: Forest_step_history)
qed

theorem no_infected_absorbing_witness:
  "count_type (Forest_step in_order row_forest) ''Infected'' = 0 \<and>
   schedule (Forest_step in_order (Forest_step in_order row_forest)) =
     schedule (Forest_step in_order row_forest) \<and>
   datacollector (Forest_step in_order (Forest_step in_order row_forest)) =
     datacollector (Forest_step in_order row_forest) @
       [(count_type (Forest_step in_order row_forest) ''Healthy'', 0,
         count_type (Forest_step in_order row_forest) ''Dead'')]"
proof -
  have z: "count_type (Forest_step in_order row_forest) ''Infected'' = 0"
    by code_simp
  show ?thesis
    using z no_infected_absorbing [OF z, where rnd = in_order] by blast
qed

lemma steps_dead:
  "j < length (schedule m) \<Longrightarrow> condition (schedule m ! j) = ''Dead'' \<Longrightarrow>
   condition (schedule ((Forest_step rnd ^^ n) m) ! j) = ''Dead'' \<and>
   length (schedule ((Forest_step rnd ^^ n) m)) = length (schedule m)"
proof (induction n)
  case 0
  then show ?case by simp
next
  case (Suc n)
  then show ?case
    by (simp add: Forest_step_frame visits_frame visits_dead)
qed

text \<open>
  Claim C5. A visit changes the condition of any tree by at most one forward change,
  \<open>Healthy\<close> to \<open>Infected\<close> or \<open>Infected\<close> to \<open>Dead\<close>, never backward; and a tree
  that is \<open>Dead\<close> is still \<open>Dead\<close> after any number of further steps.
\<close>

theorem transitions_forward_dead_terminal:
  assumes "j < length (schedule m)"
  shows "forward (condition (schedule m ! j)) (condition (schedule (Ash_Tree_step k m) ! j)) \<and>
         (condition (schedule m ! j) = ''Dead'' \<longrightarrow>
            condition (schedule ((Forest_step rnd ^^ n) m) ! j) = ''Dead'')"
  using assms by (simp add: visit_forward steps_dead)

theorem transitions_forward_dead_terminal_witness:
  "(0::nat) < length (schedule (Ash_Tree_step 0 row_forest)) \<and>
   forward (condition (schedule (Ash_Tree_step 0 row_forest) ! 0))
     (condition (schedule (Ash_Tree_step 1 (Ash_Tree_step 0 row_forest)) ! 0)) \<and>
   condition (schedule (Ash_Tree_step 0 row_forest) ! 0) = ''Dead'' \<and>
   condition (schedule ((Forest_step in_order ^^ 2) (Ash_Tree_step 0 row_forest)) ! 0) = ''Dead''"
proof -
  have len: "(0::nat) < length (schedule (Ash_Tree_step 0 row_forest))"
    and dead: "condition (schedule (Ash_Tree_step 0 row_forest) ! 0) = ''Dead''"
    by code_simp+
  show ?thesis
    using len dead transitions_forward_dead_terminal [OF len, where k = 1 and rnd = in_order and n = 2]
    by blast
qed

section \<open>Initialization and the driver loop\<close>

text \<open>
  Invariants of the creation loop hold of the model the constructor returns, whatever the
  shuffle did.
\<close>

lemma for_range_invariant:
  assumes "for_range xs body s = Inr s'" and "P s"
    and "\<And>i a b. P a \<Longrightarrow> body i a = Inr b \<Longrightarrow> P b"
  shows "P s'"
  using assms(1,2)
proof (induction xs arbitrary: s)
  case Nil
  then show ?case by simp
next
  case (Cons i xs)
  then show ?case
    by (auto split: sum.splits intro: assms(3))
qed

lemma for_range_append:
  "for_range (xs @ ys) body s =
     (case for_range xs body s of Inl err \<Rightarrow> Inl err | Inr s' \<Rightarrow> for_range ys body s')"
  by (induction xs arbitrary: s) (auto split: sum.splits)

lemma create_tree_fresh:
  "fresh W H D a \<Longrightarrow> create_tree ps i a = Inr b \<Longrightarrow> fresh W H D b"
  by (auto simp: create_tree_def fresh_def seeded_def Let_def split: if_splits)

lemma Forest_init_fresh:
  assumes "Forest_init rnd W H D = Inr m"
  shows "fresh W H D m"
proof -
  let ?m0 = "\<lparr>width = W, height = H, tree_density = D, running = True, steps = 0,
               schedule = [], agent_keys = [], grid = [], datacollector = []\<rparr>"
  obtain ps n where "for_range [0..<nat n] (create_tree ps) ?m0 = Inr m"
    using assms by (auto simp: Forest_init_def Let_def split: sum.splits if_splits)
  moreover have "fresh W H D ?m0" by (simp add: fresh_def)
  ultimately show ?thesis
    by (rule for_range_invariant) (rule create_tree_fresh)
qed

lemma create_tree_keys_ok:
  assumes "keys_ok a" "create_tree ps i a = Inr b"
  shows "keys_ok b"
proof -
  have "agent_keys b = agent_keys a @ [length (schedule a)] \<and>
        length (schedule b) = Suc (length (schedule a))"
    using assms(2) by (auto simp: create_tree_def Let_def split: if_splits)
  moreover have "mset [0..<Suc (length (schedule a))] =
      mset ([0..<length (schedule a)] @ [length (schedule a)])"
    by (simp only: upt_Suc_append le0)
  ultimately show ?thesis
    using assms(1) unfolding keys_ok_def by (simp only: mset_append)
qed

lemma Forest_init_keys_ok:
  assumes "Forest_init rnd W H D = Inr m"
  shows "keys_ok m"
proof -
  let ?m0 = "\<lparr>width = W, height = H, tree_density = D, running = True, steps = 0,
               schedule = [], agent_keys = [], grid = [], datacollector = []\<rparr>"
  obtain ps n where "for_range [0..<nat n] (create_tree ps) ?m0 = Inr m"
    using assms by (auto simp: Forest_init_def Let_def split: sum.splits if_splits)
  moreover have "keys_ok ?m0" by (simp add: keys_ok_def)
  ultimately show ?thesis
    by (rule for_range_invariant) (rule create_tree_keys_ok)
qed

text \<open>
  Claim C7. Every tree the constructor creates starts \<open>Infected\<close> if and only if its
  x-coordinate is 0; every tree at a nonzero x-coordinate starts \<open>Healthy\<close>.
\<close>

theorem initial_condition_by_column:
  assumes "Forest_init rnd W H D = Inr m" and "t \<in> set (schedule m)"
  shows "(condition t = ''Infected'') = (fst (pos t) = 0) \<and>
         (fst (pos t) \<noteq> 0 \<longrightarrow> condition t = ''Healthy'')"
  using Forest_init_fresh [OF assms(1)] assms(2) by (auto simp: fresh_def seeded_def)

theorem initial_condition_by_column_witness:
  "Forest_init in_order 3 1 (1, 0) = Inr row_forest \<and>
   schedule row_forest ! 0 \<in> set (schedule row_forest) \<and>
   (condition (schedule row_forest ! 0) = ''Infected'') = (fst (pos (schedule row_forest ! 0)) = 0) \<and>
   schedule row_forest ! 1 \<in> set (schedule row_forest) \<and>
   fst (pos (schedule row_forest ! 1)) \<noteq> 0 \<and>
   condition (schedule row_forest ! 1) = ''Healthy''"
proof -
  have mem: "schedule row_forest ! 0 \<in> set (schedule row_forest)"
    "schedule row_forest ! 1 \<in> set (schedule row_forest)"
    "fst (pos (schedule row_forest ! 1)) \<noteq> 0"
    by (simp_all add: row_forest_def)
  show ?thesis
    using init_row mem initial_condition_by_column [OF init_row mem(1)]
      initial_condition_by_column [OF init_row mem(2)]
    by blast
qed

text \<open>Every tree is always in one of the three conditions, so the three counts add up.\<close>

lemma count_list_sum:
  "\<forall>t \<in> set ts. known_condition (condition t) \<Longrightarrow>
   length (filter (\<lambda>tree. condition tree = ''Healthy'') ts) +
   length (filter (\<lambda>tree. condition tree = ''Infected'') ts) +
   length (filter (\<lambda>tree. condition tree = ''Dead'') ts) = length ts"
  by (induction ts) (auto simp: known_condition_def)

lemma count_type_sum:
  "all_known m \<Longrightarrow>
   count_type m ''Healthy'' + count_type m ''Infected'' + count_type m ''Dead'' =
   length (schedule m)"
  unfolding all_known_def count_type_def by (rule count_list_sum)

lemma Forest_init_known:
  assumes "Forest_init rnd W H D = Inr m"
  shows "all_known m"
  using Forest_init_fresh [OF assms]
  by (auto simp: fresh_def seeded_def all_known_def known_condition_def)

lemma Forest_step_known:
  assumes "all_known m"
  shows "all_known (Forest_step rnd m)"
proof -
  have "\<And>j. j < length (schedule m) \<Longrightarrow>
      known_condition (condition (schedule (fold Ash_Tree_step (agent_order rnd m) m) ! j))"
    using assms by (intro visits_known) (simp_all add: all_known_def)
  then show ?thesis
    by (simp add: all_known_def Forest_step_frame all_set_conv_all_nth visits_frame)
qed

lemma run_loop_history:
  assumes "all_known m"
    and "\<forall>(h, i, d) \<in> set (datacollector m). h + i + d = length (schedule m)"
  shows "all_known (run_loop rnd n m) \<and>
         length (schedule (run_loop rnd n m)) = length (schedule m) \<and>
         (\<forall>(h, i, d) \<in> set (datacollector (run_loop rnd n m)). h + i + d = length (schedule m))"
  using assms
proof (induction n arbitrary: m)
  case 0
  then show ?case by simp
next
  case (Suc n)
  show ?case
  proof (cases "running m")
    case False
    then show ?thesis using Suc.prems by simp
  next
    case True
    let ?m' = "Forest_step rnd m"
    have k: "all_known ?m'" using Suc.prems(1) by (rule Forest_step_known)
    have len: "length (schedule ?m') = length (schedule m)" by (rule Forest_step_frame(6))
    have "\<forall>(h, i, d) \<in> set (datacollector ?m'). h + i + d = length (schedule ?m')"
      using Suc.prems(2) count_type_sum [OF k] len
      by (subst Forest_step_history) auto
    then show ?thesis
      using Suc.IH [OF k] True len by simp
  qed
qed

text \<open>
  Claim C4. In every run, the \<open>Healthy\<close>, \<open>Infected\<close> and \<open>Dead\<close> counts of every
  row of the history sum to the number of trees created by the constructor.
\<close>

theorem history_counts_sum_to_population:
  assumes "run_model rnd W H D max_steps = Inr history"
  shows "\<exists>m0. Forest_init rnd W H D = Inr m0 \<and>
           (\<forall>(h, i, d) \<in> set history. h + i + d = length (schedule m0))"
proof -
  obtain m0 where init: "Forest_init rnd W H D = Inr m0"
    and hist: "history = datacollector (run_loop rnd (nat max_steps) m0)"
    using assms by (auto simp: run_model_def split: sum.splits)
  have "datacollector m0 = []"
    using Forest_init_fresh [OF init] by (simp add: fresh_def)
  then have "\<forall>(h, i, d) \<in> set (datacollector m0). h + i + d = length (schedule m0)"
    by simp
  then show ?thesis
    using run_loop_history [OF Forest_init_known [OF init]] init hist by blast
qed

theorem history_counts_sum_to_population_witness:
  "run_model reversed_steps 3 1 (1, 0) 10 = Inr [(1, 1, 1), (0, 0, 3)] \<and>
   (\<exists>m0. Forest_init reversed_steps 3 1 (1, 0) = Inr m0 \<and>
      (\<forall>(h, i, d) \<in> set [(1, 1, 1), (0, 0, 3)]. h + i + d = length (schedule m0)))"
  using run_row_reversed history_counts_sum_to_population [OF run_row_reversed]
  by blast

text \<open>The driver loop as a number of unconditional steps.\<close>

lemma run_loop_stopped: "\<not> running m \<Longrightarrow> run_loop rnd n m = m"
  by (cases n) simp_all

lemma run_loop_steps:
  assumes "running m"
  shows "\<exists>t \<le> n. run_loop rnd n m = (Forest_step rnd ^^ t) m \<and>
           (\<forall>k. 1 \<le> k \<and> k < t \<longrightarrow> count_type ((Forest_step rnd ^^ k) m) ''Infected'' \<noteq> 0) \<and>
           (t < n \<longrightarrow> 1 \<le> t \<and> count_type ((Forest_step rnd ^^ t) m) ''Infected'' = 0) \<and>
           running (run_loop rnd n m) =
             (\<not> (1 \<le> t \<and> count_type ((Forest_step rnd ^^ t) m) ''Infected'' = 0))"
  using assms
proof (induction n arbitrary: m)
  case 0
  then show ?case by simp
next
  case (Suc n)
  let ?m' = "Forest_step rnd m"
  have unroll: "run_loop rnd (Suc n) m = run_loop rnd n ?m'"
    using Suc.prems by simp
  have shift: "\<And>k. (Forest_step rnd ^^ k) ?m' = (Forest_step rnd ^^ Suc k) m"
    by (simp add: funpow_swap1)
  show ?case
  proof (cases "count_type ?m' ''Infected'' = 0")
    case True
    then have "\<not> running ?m'" by (simp add: Forest_step_running)
    then have "run_loop rnd (Suc n) m = ?m'"
      using unroll by (simp add: run_loop_stopped)
    then show ?thesis
      using True \<open>\<not> running ?m'\<close> by (intro exI [of _ 1]) simp
  next
    case False
    then have run: "running ?m'" using Suc.prems by (simp add: Forest_step_running)
    obtain t where t: "t \<le> n" "run_loop rnd n ?m' = (Forest_step rnd ^^ t) ?m'"
      "\<forall>k. 1 \<le> k \<and> k < t \<longrightarrow> count_type ((Forest_step rnd ^^ k) ?m') ''Infected'' \<noteq> 0"
      "t < n \<longrightarrow> 1 \<le> t \<and> count_type ((Forest_step rnd ^^ t) ?m') ''Infected'' = 0"
      "running (run_loop rnd n ?m') =
         (\<not> (1 \<le> t \<and> count_type ((Forest_step rnd ^^ t) ?m') ''Infected'' = 0))"
      using Suc.IH [OF run] by blast
    have earlier: "count_type ((Forest_step rnd ^^ k) m) ''Infected'' \<noteq> 0"
      if "1 \<le> k" "k < Suc t" for k
    proof (cases "k = 1")
      case True
      then show ?thesis using False by simp
    next
      case False
      then have k': "k = Suc (k - 1)" "1 \<le> k - 1" "k - 1 < t"
        using that by arith+
      have "count_type ((Forest_step rnd ^^ (k - 1)) ?m') ''Infected'' \<noteq> 0"
        using t(3) k'(2,3) by blast
      then show ?thesis using shift [of "k - 1"] k'(1) by simp
    qed
    have last: "count_type ((Forest_step rnd ^^ Suc t) m) ''Infected'' = 0 \<longleftrightarrow>
        (1 \<le> t \<and> count_type ((Forest_step rnd ^^ t) ?m') ''Infected'' = 0)"
      using False shift [of t] by (cases t) auto
    show ?thesis
      using t(1,2,4,5) earlier last unroll shift [of t]
      by (intro exI [of _ "Suc t"]) auto
  qed
qed

lemma steps_history_length:
  "length (datacollector ((Forest_step rnd ^^ t) m)) = length (datacollector m) + t"
  by (induction t) (simp_all add: Forest_step_history)

text \<open>
  Claim C3. The driver loop executes \<open>t\<close> steps, where \<open>t\<close> is at most \<open>max_steps\<close>;
  no step before the \<open>t\<close>-th ended with an \<open>Infected\<close> count of zero; when the loop
  stops before \<open>max_steps\<close>, the \<open>t\<close>-th step did end with a count of zero; and the run
  is marked finished at the end exactly when its last step ended with a count of zero. So
  the run is marked finished at the end of the first step that leaves no tree
  \<open>Infected\<close>, and no step executes after it.
\<close>

theorem driver_loop_stops_at_first_clear_step:
  assumes "Forest_init rnd W H D = Inr m0"
  shows "\<exists>t \<le> nat max_steps.
           run_model rnd W H D max_steps = Inr (datacollector ((Forest_step rnd ^^ t) m0)) \<and>
           run_loop rnd (nat max_steps) m0 = (Forest_step rnd ^^ t) m0 \<and>
           length (datacollector ((Forest_step rnd ^^ t) m0)) = t \<and>
           (\<forall>k. 1 \<le> k \<and> k < t \<longrightarrow> count_type ((Forest_step rnd ^^ k) m0) ''Infected'' \<noteq> 0) \<and>
           (t < nat max_steps \<longrightarrow>
              1 \<le> t \<and> count_type ((Forest_step rnd ^^ t) m0) ''Infected'' = 0) \<and>
           running (run_loop rnd (nat max_steps) m0) =
             (\<not> (1 \<le> t \<and> count_type ((Forest_step rnd ^^ t) m0) ''Infected'' = 0))"
proof -
  have f: "running m0" "datacollector m0 = []"
    using Forest_init_fresh [OF assms] by (simp_all add: fresh_def)
  obtain t where t: "t \<le> nat max_steps"
    "run_loop rnd (nat max_steps) m0 = (Forest_step rnd ^^ t) m0"
    "\<forall>k. 1 \<le> k \<and> k < t \<longrightarrow> count_type ((Forest_step rnd ^^ k) m0) ''Infected'' \<noteq> 0"
    "t < nat max_steps \<longrightarrow> 1 \<le> t \<and> count_type ((Forest_step rnd ^^ t) m0) ''Infected'' = 0"
    "running (run_loop rnd (nat max_steps) m0) =
       (\<not> (1 \<le> t \<and> count_type ((Forest_step rnd ^^ t) m0) ''Infected'' = 0))"
    using run_loop_steps [OF f(1)] by blast
  have "run_model rnd W H D max_steps = Inr (datacollector ((Forest_step rnd ^^ t) m0))"
    using assms t(2) by (simp add: run_model_def)
  moreover have "length (datacollector ((Forest_step rnd ^^ t) m0)) = t"
    using f(2) by (simp add: steps_history_length)
  ultimately show ?thesis
    using t by blast
qed

theorem driver_loop_stops_at_first_clear_step_witness:
  "Forest_init reversed_steps 3 1 (1, 0) = Inr row_forest \<and>
   run_model reversed_steps 3 1 (1, 0) 10 = Inr [(1, 1, 1), (0, 0, 3)] \<and>
   (\<exists>t \<le> nat 10.
       run_model reversed_steps 3 1 (1, 0) 10 =
         Inr (datacollector ((Forest_step reversed_steps ^^ t) row_forest)) \<and>
       run_loop reversed_steps (nat 10) row_forest = (Forest_step reversed_steps ^^ t) row_forest \<and>
       length (datacollector ((Forest_step reversed_steps ^^ t) row_forest)) = t \<and>
       (\<forall>k. 1 \<le> k \<and> k < t \<longrightarrow>
          count_type ((Forest_step reversed_steps ^^ k) row_forest) ''Infected'' \<noteq> 0) \<and>
       (t < nat 10 \<longrightarrow>
          1 \<le> t \<and> count_type ((Forest_step reversed_steps ^^ t) row_forest) ''Infected'' = 0) \<and>
       running (run_loop reversed_steps (nat 10) row_forest) =
         (\<not> (1 \<le> t \<and> count_type ((Forest_step reversed_steps ^^ t) row_forest) ''Infected'' = 0)))"
  using init_row_reversed run_row_reversed
    driver_loop_stops_at_first_clear_step [OF init_row_reversed, where max_steps = 10]
  by blast

section \<open>The number of trees\<close>

text \<open>
  Rounding to nearest never crosses an integer: a product of an integer below \<open>2 ^ 53\<close>
  and a float of magnitude at most one, rounded and truncated, lies between the floor and
  the ceiling of the exact product.
\<close>

lemma round_shift_ge: "n div 2 ^ s \<le> round_shift n s"
  by (simp add: round_shift_def Let_def)

lemma round_shift_le:
  assumes "n \<le> B * 2 ^ s"
  shows "round_shift n s \<le> B"
proof -
  let ?q = "n div 2 ^ s" and ?r = "n mod 2 ^ s"
  have pos: "(0::int) < 2 ^ s" by simp
  have "?q \<le> (B * 2 ^ s) div 2 ^ s"
    using assms pos by (intro zdiv_mono1)
  then have q: "?q \<le> B" by simp
  have strict: "?q < B" if "0 < ?r"
  proof -
    have "2 ^ s * ?q + ?r = n" by (rule mult_div_mod_eq)
    then have "2 ^ s * ?q < n" using that by linarith
    moreover have "n \<le> 2 ^ s * B" using assms by (simp only: mult.commute)
    ultimately have "2 ^ s * ?q < 2 ^ s * B" by linarith
    then show ?thesis by (simp only: mult_less_cancel_left_pos [OF pos])
  qed
  show ?thesis
  proof (cases "2 * ?r < 2 ^ s")
    case True
    then show ?thesis using q by (simp add: round_shift_def Let_def)
  next
    case False
    then have "0 < ?r" using pos by linarith
    then have "?q + 1 \<le> B" using strict by simp
    then show ?thesis using q by (simp add: round_shift_def Let_def)
  qed
qed

lemma round_shift_zero: "round_shift 0 s = 0"
  by (simp add: round_shift_def)

lemma truncated_bounds:
  assumes "s \<le> k"
  shows "n div 2 ^ k \<le> round_shift n s div 2 ^ (k - s)"
    and "n \<le> K * 2 ^ k \<Longrightarrow> round_shift n s div 2 ^ (k - s) \<le> K"
proof -
  have split: "(2::int) ^ k = 2 ^ s * 2 ^ (k - s)"
    using assms by (simp flip: power_add)
  have pos: "(0::int) < 2 ^ (k - s)" by simp
  have "n div 2 ^ k = (n div 2 ^ s) div 2 ^ (k - s)"
    unfolding split by (simp add: zdiv_zmult2_eq)
  also have "\<dots> \<le> round_shift n s div 2 ^ (k - s)"
    using round_shift_ge pos by (intro zdiv_mono1)
  finally show "n div 2 ^ k \<le> round_shift n s div 2 ^ (k - s)" .
  assume "n \<le> K * 2 ^ k"
  then have "n \<le> (K * 2 ^ (k - s)) * 2 ^ s"
    unfolding split by (simp add: ac_simps)
  then have "round_shift n s \<le> K * 2 ^ (k - s)" by (rule round_shift_le)
  then have "round_shift n s div 2 ^ (k - s) \<le> (K * 2 ^ (k - s)) div 2 ^ (k - s)"
    using pos by (intro zdiv_mono1)
  then show "round_shift n s div 2 ^ (k - s) \<le> K" by simp
qed

lemma float_of_int_exact:
  assumes "0 < a" "a < 2 ^ 53"
  shows "float_of_int a = Inr (a, 0)"
proof -
  have b: "bitlen a \<le> 53" using assms by (simp add: bitlen_le_iff_power)
  then have s: "nat (max (bitlen \<bar>a\<bar> - 53) (- 1074 - 0)) = 0" using assms by simp
  have r: "round_shift \<bar>a\<bar> 0 = a" using assms by (simp add: round_shift_def)
  show ?thesis
    using assms b unfolding float_of_int_def round_double_def s Let_def r by simp
qed

lemma round_double_small:
  assumes "0 < a" "a < 2 ^ 53" "\<bar>n\<bar> \<le> a * 2 ^ k"
  shows "\<exists>r. int_of_float (round_double n (- int k)) = Inr (sgn n * r) \<and>
             \<bar>n\<bar> div 2 ^ k \<le> r \<and> (\<forall>K. \<bar>n\<bar> \<le> K * 2 ^ k \<longrightarrow> r \<le> K)"
proof -
  define s where "s = nat (max (bitlen \<bar>n\<bar> - 53) (- 1074 - (- int k)))"
  define rs where "rs = round_shift \<bar>n\<bar> s"
  define t where "t = k - s"
  have pow: "\<And>j. (2::int) ^ nat (53 + int j) = 2 ^ 53 * 2 ^ j"
  proof -
    fix j
    have "nat (53 + int j) = 53 + j" by simp
    then show "(2::int) ^ nat (53 + int j) = 2 ^ 53 * 2 ^ j" by (simp only: power_add)
  qed
  have "a * 2 ^ k < 2 ^ 53 * 2 ^ k"
    using assms(2) by (intro mult_strict_right_mono) simp_all
  then have "\<bar>n\<bar> < 2 ^ 53 * 2 ^ k"
    using assms(3) by linarith
  then have "\<bar>n\<bar> < 2 ^ nat (53 + int k)"
    by (simp only: pow)
  then have "bitlen \<bar>n\<bar> \<le> 53 + int k" by (simp add: bitlen_le_iff_power)
  then have sk: "s \<le> k" by (simp add: s_def)
  have lo: "\<bar>n\<bar> div 2 ^ k \<le> rs div 2 ^ t"
    and hi: "\<And>K. \<bar>n\<bar> \<le> K * 2 ^ k \<Longrightarrow> rs div 2 ^ t \<le> K"
    unfolding rs_def t_def using truncated_bounds [OF sk] by blast+
  have "0 \<le> \<bar>n\<bar> div 2 ^ s"
    by (simp add: pos_imp_zdiv_nonneg_iff)
  then have rs0: "0 \<le> rs"
    unfolding rs_def using round_shift_ge [of "\<bar>n\<bar>" s] by linarith
  have "(2::int) ^ t * 2 ^ s = 2 ^ k"
    using sk by (simp add: t_def flip: power_add)
  then have "(a * 2 ^ t) * 2 ^ s = a * 2 ^ k"
    by (simp only: mult.assoc)
  then have "\<bar>n\<bar> \<le> (a * 2 ^ t) * 2 ^ s"
    using assms(3) by (simp only:)
  then have "rs \<le> a * 2 ^ t" unfolding rs_def by (rule round_shift_le)
  also have "\<dots> < 2 ^ 53 * 2 ^ t"
    using assms(2) by (intro mult_strict_right_mono) simp_all
  finally have "rs < 2 ^ nat (53 + int t)"
    by (simp only: pow)
  then have bl: "bitlen rs \<le> 53 + int t" by (simp add: bitlen_le_iff_power)
  have e': "- int k + int s = - int t" using sk by (simp add: t_def)
  have no_overflow: "\<not> (rs \<noteq> 0 \<and> 1024 < bitlen rs + (- int k + int s))"
    using bl unfolding e' by simp
  have rd: "round_double n (- int k) = Some (sgn n * rs, - int t)"
    unfolding round_double_def Let_def s_def [symmetric] rs_def [symmetric]
    using no_overflow by (simp only: e' if_False)
  have rs_zero: "n = 0 \<Longrightarrow> rs = 0"
    by (simp add: rs_def round_shift_zero)
  have "int_of_float (round_double n (- int k)) = Inr (sgn n * (rs div 2 ^ t))"
  proof (cases "t = 0")
    case True
    then show ?thesis by (simp add: rd int_of_float_def)
  next
    case False
    show ?thesis
    proof (cases "n = 0 \<or> rs = 0")
      case True
      then show ?thesis using rs_zero False by (auto simp: rd int_of_float_def)
    next
      case False
      then have "0 < rs" "n \<noteq> 0" using rs0 by auto
      then show ?thesis
        using \<open>t \<noteq> 0\<close> by (simp add: rd int_of_float_def abs_mult sgn_mult)
    qed
  qed
  then show ?thesis using lo hi by blast
qed

lemma int_of_float_zero: "int_of_float (round_double 0 e) = Inr 0"
  by (simp add: round_double_def round_shift_zero int_of_float_def Let_def)

lemma dval_abs_small:
  assumes "\<bar>dval (m, e)\<bar> \<le> 1" "m \<noteq> 0"
  shows "e = - int (nat (- e)) \<and> \<bar>m\<bar> \<le> 2 ^ nat (- e) \<and>
         \<bar>dval (m, e)\<bar> = of_int \<bar>m\<bar> / of_int (2 ^ nat (- e))"
proof (cases "0 < e")
  case True
  have "1 \<le> \<bar>m\<bar>" using assms(2) by simp
  then have "(of_int 1 :: rat) \<le> of_int \<bar>m\<bar>" by (simp only: of_int_le_iff)
  then have "(1::rat) \<le> of_int \<bar>m\<bar>" by (simp only: of_int_1)
  moreover have "(2::rat) \<le> 2 ^ nat e"
    using True self_le_power [of "2::rat" "nat e"] by simp
  ultimately have "(1::rat) * 2 \<le> of_int \<bar>m\<bar> * 2 ^ nat e"
    by (intro mult_mono) simp_all
  then have "(2::rat) \<le> \<bar>dval (m, e)\<bar>"
    using True by (simp add: dval_def abs_mult)
  then show ?thesis using assms(1) by simp
next
  case False
  then have e: "e = - int (nat (- e))" by simp
  have val: "\<bar>dval (m, e)\<bar> = of_int \<bar>m\<bar> / of_int (2 ^ nat (- e))"
    using False by (cases "e = 0") (simp_all add: dval_def abs_mult)
  then have "(of_int \<bar>m\<bar> :: rat) \<le> of_int (2 ^ nat (- e))"
    using assms(1) by (simp add: divide_le_eq del: of_int_abs)
  then have "\<bar>m\<bar> \<le> 2 ^ nat (- e)" by (simp only: of_int_le_iff)
  then show ?thesis using e val by blast
qed

lemma num_of_agents_small:
  assumes "0 < W" "0 < H" "W * H < 2 ^ 53" "\<bar>dval D\<bar> \<le> 1"
  shows "\<exists>r. num_of_agents W H D = Inr (sgn (fst D) * r) \<and> 0 \<le> r \<and> r \<le> W * H \<and>
             \<lfloor>of_int (W * H) * \<bar>dval D\<bar>\<rfloor> \<le> r \<and> r \<le> \<lceil>of_int (W * H) * \<bar>dval D\<bar>\<rceil>"
proof -
  obtain m e where D: "D = (m, e)" by (cases D)
  define a where "a = W * H"
  have a: "0 < a" "a < 2 ^ 53"
    using assms(1-3) by (simp_all add: a_def)
  have num: "num_of_agents W H D = int_of_float (round_double (a * m) e)"
    using float_of_int_exact [OF a]
    by (simp add: num_of_agents_def float_mul_def D a_def)
  show ?thesis
  proof (cases "m = 0")
    case True
    then have "dval D = 0" by (simp add: D dval_def)
    moreover have "num_of_agents W H D = Inr 0"
      using True by (simp add: num int_of_float_zero)
    ultimately show ?thesis
      using a(1) by (intro exI [of _ 0]) (simp add: a_def)
  next
    case False
    define k where "k = nat (- e)"
    have e: "e = - int k" and mk: "\<bar>m\<bar> \<le> 2 ^ k"
      and val: "\<bar>dval D\<bar> = of_int \<bar>m\<bar> / of_int (2 ^ k)"
      using dval_abs_small [of m e] assms(4) False unfolding D k_def by blast+
    have abs_n: "\<bar>a * m\<bar> = a * \<bar>m\<bar>"
      using a(1) by (simp add: abs_mult)
    have "a * \<bar>m\<bar> \<le> a * 2 ^ k"
      using mk a(1) by (intro mult_left_mono) simp_all
    then have small: "\<bar>a * m\<bar> \<le> a * 2 ^ k" by (simp only: abs_n)
    obtain r where r: "int_of_float (round_double (a * m) (- int k)) = Inr (sgn (a * m) * r)"
      "\<bar>a * m\<bar> div 2 ^ k \<le> r" "\<And>K. \<bar>a * m\<bar> \<le> K * 2 ^ k \<Longrightarrow> r \<le> K"
      using round_double_small [OF a small] by blast
    have sg: "sgn (a * m) = sgn (fst D)"
      using a(1) by (simp add: sgn_mult D)
    have q: "of_int a * \<bar>dval D\<bar> = (of_int \<bar>a * m\<bar> :: rat) / of_int (2 ^ k)"
      unfolding val abs_n by simp
    have fl: "\<lfloor>of_int a * \<bar>dval D\<bar>\<rfloor> = \<bar>a * m\<bar> div 2 ^ k"
      unfolding q by (rule floor_divide_of_int_eq)
    have "0 \<le> \<bar>a * m\<bar> div 2 ^ k"
      by (simp add: pos_imp_zdiv_nonneg_iff)
    then have r0: "0 \<le> r" using r(2) by linarith
    have ra: "r \<le> a" using r(3) [of a] small by simp
    have "(of_int \<bar>a * m\<bar> :: rat) / of_int (2 ^ k) \<le> of_int \<lceil>of_int a * \<bar>dval D\<bar>\<rceil>"
      unfolding q [symmetric] by (rule le_of_int_ceiling)
    then have "(of_int \<bar>a * m\<bar> :: rat) \<le> of_int (\<lceil>of_int a * \<bar>dval D\<bar>\<rceil> * 2 ^ k)"
      by (simp add: divide_le_eq del: of_int_abs)
    then have "\<bar>a * m\<bar> \<le> \<lceil>of_int a * \<bar>dval D\<bar>\<rceil> * 2 ^ k"
      by (simp only: of_int_le_iff)
    then have ce: "r \<le> \<lceil>of_int a * \<bar>dval D\<bar>\<rceil>" by (rule r(3))
    show ?thesis
      using r(1,2) r0 ra ce fl unfolding num e sg a_def [symmetric]
      by (intro exI [of _ r]) simp
  qed
qed

lemma num_of_agents_valid:
  assumes "0 < W" "0 < H" "W * H < 2 ^ 53" "0 \<le> dval D" "dval D \<le> 1"
  shows "\<exists>n. num_of_agents W H D = Inr n \<and> 0 \<le> n \<and> n \<le> W * H \<and>
             \<lfloor>of_int (W * H) * dval D\<rfloor> \<le> n \<and> n \<le> \<lceil>of_int (W * H) * dval D\<rceil>"
proof -
  have ab: "\<bar>dval D\<bar> = dval D" using assms(4) by simp
  then have "\<bar>dval D\<bar> \<le> 1" using assms(5) by simp
  then obtain r where r': "num_of_agents W H D = Inr (sgn (fst D) * r)" "0 \<le> r" "r \<le> W * H"
    "\<lfloor>of_int (W * H) * \<bar>dval D\<bar>\<rfloor> \<le> r" "r \<le> \<lceil>of_int (W * H) * \<bar>dval D\<bar>\<rceil>"
    using num_of_agents_small [OF assms(1-3)] by blast
  have r: "num_of_agents W H D = Inr (sgn (fst D) * r)" "0 \<le> r" "r \<le> W * H"
    "\<lfloor>of_int (W * H) * dval D\<rfloor> \<le> r" "r \<le> \<lceil>of_int (W * H) * dval D\<rceil>"
    using r' unfolding ab by blast+
  show ?thesis
  proof (cases "fst D = 0")
    case True
    then have "dval D = 0" by (simp add: dval_def)
    then show ?thesis
      using True r(1) assms(1,2) by (intro exI [of _ 0]) simp
  next
    case False
    have "\<not> fst D < 0"
    proof
      assume neg: "fst D < 0"
      have "(0::rat) < (if 0 \<le> snd D then 2 ^ nat (snd D) else 1 / 2 ^ nat (- snd D))"
        by simp
      then have "dval D < 0"
        unfolding dval_def using neg by (simp add: mult_neg_pos)
      then show False using assms(4) by simp
    qed
    then have "sgn (fst D) = 1" using False by simp
    then show ?thesis using r by (intro exI [of _ r]) simp
  qed
qed

lemma num_of_agents_negative:
  assumes "0 < W" "0 < H" "W * H < 2 ^ 53" "- 1 \<le> dval D" "dval D < 0"
  shows "\<exists>n. num_of_agents W H D = Inr n \<and> n \<le> 0"
proof -
  have "\<bar>dval D\<bar> \<le> 1" using assms(4,5) by simp
  then obtain r where r: "num_of_agents W H D = Inr (sgn (fst D) * r)" "0 \<le> r"
    using num_of_agents_small [OF assms(1-3)] by blast
  have "fst D < 0"
  proof (rule ccontr)
    assume "\<not> fst D < 0"
    then have "(0::rat) \<le> of_int (fst D)" by simp
    moreover have "(0::rat) \<le> (if 0 \<le> snd D then 2 ^ nat (snd D) else 1 / 2 ^ nat (- snd D))"
      by simp
    ultimately have "0 \<le> dval D"
      unfolding dval_def by (rule mult_nonneg_nonneg)
    then show False using assms(5) by simp
  qed
  then have "sgn (fst D) * r \<le> 0" using r(2) by (simp add: mult_le_0_iff)
  then show ?thesis using r(1) by blast
qed

text \<open>
  The shuffled positions are distinct and inside the grid, so the creation loop never finds
  a cell occupied; it fails only when it runs past the end of the positions.
\<close>

lemma positions_product:
  "[(x, y). x \<leftarrow> [0..W - 1], y \<leftarrow> [0..H - 1]] = List.product [0..W - 1] [0..H - 1]"
  by (simp add: product_concat_map)

lemma shuffled_positions:
  assumes "valid_random rnd" "0 < W" "0 < H"
  defines "positions \<equiv> [(x, y). x \<leftarrow> [0..W - 1], y \<leftarrow> [0..H - 1]]"
  defines "ps \<equiv> shuffle (rnd 0 (length positions)) positions"
  shows "distinct ps" and "length ps = nat (W * H)"
    and "\<forall>p \<in> set ps. \<not> out_of_bounds W H p"
proof -
  have ms: "mset ps = mset positions"
    unfolding ps_def using assms(1) by (intro mset_shuffle) (simp add: valid_random_def)
  have d: "distinct positions"
    unfolding positions_def positions_product by (intro distinct_product) simp_all
  show "distinct ps" using ms d by (metis mset_eq_imp_distinct_iff)
  have "length ps = length positions" using ms by (rule mset_eq_length)
  also have "\<dots> = nat W * nat H"
    unfolding positions_def positions_product using assms(2,3) by simp
  finally show "length ps = nat (W * H)"
    using assms(2,3) by (simp add: nat_mult_distrib)
  have "set ps = set positions" using ms by (rule mset_eq_setD)
  then show "\<forall>p \<in> set ps. \<not> out_of_bounds W H p"
    unfolding positions_def positions_product by (auto simp: out_of_bounds_def)
qed

lemma planted_zero:
  "schedule m = [] \<Longrightarrow> agent_keys m = [] \<Longrightarrow> grid m = [] \<Longrightarrow> planted ps 0 m = m"
  by (simp add: planted_def)

lemma create_tree_planted:
  assumes "distinct ps" "n < length ps"
  shows "create_tree ps n (planted ps n m) = Inr (planted ps (Suc n) m)"
proof -
  have "ps ! n \<notin> set (take n ps)"
    using assms by (auto simp: in_set_conv_nth distinct_conv_nth)
  then have free: "map_of (zip (take n ps) [0..<n]) (ps ! n) = None"
    using assms(2) by (simp add: map_of_zip_is_None)
  have tk: "take (Suc n) ps = take n ps @ [ps ! n]"
    using assms(2) by (rule take_Suc_conv_app_nth)
  show ?thesis
    using assms(2) free unfolding create_tree_def planted_def Let_def tk
    by simp
qed

lemma for_range_planted:
  assumes "distinct ps" "n \<le> length ps" "schedule m = []" "agent_keys m = []" "grid m = []"
  shows "for_range [0..<n] (create_tree ps) m = Inr (planted ps n m)"
  using assms(2)
proof (induction n)
  case 0
  then show ?case using assms(3-5) by (simp add: planted_zero)
next
  case (Suc n)
  then show ?case
    using assms(1) by (simp add: for_range_append create_tree_planted)
qed

lemma for_range_index_error:
  assumes "distinct ps" "length ps < n" "schedule m = []" "agent_keys m = []" "grid m = []"
  shows "for_range [0..<n] (create_tree ps) m = Inl IndexError"
proof -
  obtain d where n: "n = length ps + Suc d"
    using assms(2) by (auto dest: less_imp_Suc_add)
  have "[0..<n] = [0..<length ps] @ [length ps..<length ps + Suc d]"
    unfolding n by (rule upt_add_eq_append) simp
  also have "[length ps..<length ps + Suc d] = length ps # [Suc (length ps)..<length ps + Suc d]"
    by (rule upt_conv_Cons) simp
  finally have "[0..<n] = [0..<length ps] @ length ps # [Suc (length ps)..<length ps + Suc d]" .
  moreover have "create_tree ps (length ps) (planted ps (length ps) m) = Inl IndexError"
    by (simp add: create_tree_def)
  ultimately show ?thesis
    using for_range_planted [OF assms(1) order_refl assms(3-5)]
    by (simp add: for_range_append)
qed

lemma wf_planted:
  assumes "distinct ps" "n \<le> length ps" "\<forall>p \<in> set ps. \<not> out_of_bounds (width m) (height m) p"
  shows "wf_forest (planted ps n m)"
proof -
  have pos: "map pos (schedule (planted ps n m)) = take n ps"
    using assms(2) by (intro nth_equalityI) (simp_all add: planted_def)
  have "\<And>t. t < n \<Longrightarrow> ps ! t \<in> set ps" using assms(2) by simp
  then show ?thesis
    unfolding wf_forest_def pos using assms(1,3)
    by (auto simp: planted_def)
qed

lemma Forest_init_valid:
  assumes "valid_random rnd" "0 < W" "0 < H" "num_of_agents W H D = Inr n" "n \<le> W * H"
  shows "\<exists>m. Forest_init rnd W H D = Inr m \<and> length (schedule m) = nat n \<and> wf_forest m"
proof -
  define positions where "positions = [(x, y). x \<leftarrow> [0..W - 1], y \<leftarrow> [0..H - 1]]"
  define ps where "ps = shuffle (rnd 0 (length positions)) positions"
  define m0 where "m0 = \<lparr>width = W, height = H, tree_density = D, running = True, steps = 0,
               schedule = [], agent_keys = [], grid = [], datacollector = []\<rparr>"
  have ps: "distinct ps" "length ps = nat (W * H)" "\<forall>p \<in> set ps. \<not> out_of_bounds W H p"
    unfolding ps_def positions_def by (rule shuffled_positions [OF assms(1-3)])+
  have le: "nat n \<le> length ps" using assms(5) ps(2) by simp
  have "\<not> (W < 0 \<or> H < 0)" using assms(2,3) by simp
  then have init: "Forest_init rnd W H D = for_range [0..<nat n] (create_tree ps) m0"
    unfolding Forest_init_def Let_def positions_def [symmetric] ps_def [symmetric]
      m0_def [symmetric] by (simp add: assms(4))
  have "for_range [0..<nat n] (create_tree ps) m0 = Inr (planted ps (nat n) m0)"
    using ps(1) le by (rule for_range_planted) (simp_all add: m0_def)
  moreover have "wf_forest (planted ps (nat n) m0)"
    using ps(1) le by (rule wf_planted) (simp add: m0_def ps(3))
  moreover have "length (schedule (planted ps (nat n) m0)) = nat n"
    by (simp add: planted_def)
  ultimately show ?thesis using init by simp
qed

lemma Forest_init_index_error:
  assumes "valid_random rnd" "0 < W" "0 < H" "num_of_agents W H D = Inr n" "W * H < n"
  shows "Forest_init rnd W H D = Inl IndexError"
proof -
  define positions where "positions = [(x, y). x \<leftarrow> [0..W - 1], y \<leftarrow> [0..H - 1]]"
  define ps where "ps = shuffle (rnd 0 (length positions)) positions"
  define m0 where "m0 = \<lparr>width = W, height = H, tree_density = D, running = True, steps = 0,
               schedule = [], agent_keys = [], grid = [], datacollector = []\<rparr>"
  have ps: "distinct ps" "length ps = nat (W * H)"
    unfolding ps_def positions_def by (rule shuffled_positions [OF assms(1-3)])+
  have "0 < W * H" using assms(2,3) by (rule mult_pos_pos)
  then have lt: "length ps < nat n" using assms(5) ps(2) by simp
  have "\<not> (W < 0 \<or> H < 0)" using assms(2,3) by simp
  then have init: "Forest_init rnd W H D = for_range [0..<nat n] (create_tree ps) m0"
    unfolding Forest_init_def Let_def positions_def [symmetric] ps_def [symmetric]
      m0_def [symmetric] by (simp add: assms(4))
  have "for_range [0..<nat n] (create_tree ps) m0 = Inl IndexError"
    using ps(1) lt by (rule for_range_index_error) (simp_all add: m0_def)
  then show ?thesis using init by simp
qed

lemma int_of_float_floor:
  assumes "0 \<le> fst p"
  shows "int_of_float (Some p) = Inr \<lfloor>dval p\<rfloor>"
proof (cases "0 \<le> snd p")
  case True
  have "dval p = of_int (fst p * 2 ^ nat (snd p))"
    using True by (simp add: dval_def)
  then have "\<lfloor>dval p\<rfloor> = fst p * 2 ^ nat (snd p)"
    by (simp only: floor_of_int)
  then show ?thesis using True by (simp add: int_of_float_def)
next
  case False
  have "dval p = of_int (fst p) / of_int (2 ^ nat (- snd p))"
    using False by (simp add: dval_def)
  then have "\<lfloor>dval p\<rfloor> = fst p div 2 ^ nat (- snd p)"
    by (simp only: floor_divide_of_int_eq)
  moreover have "sgn (fst p) * (\<bar>fst p\<bar> div 2 ^ nat (- snd p)) = fst p div 2 ^ nat (- snd p)"
    using assms by (cases "fst p = 0") simp_all
  ultimately show ?thesis using False by (simp add: int_of_float_def)
qed

lemma round_double_nonneg:
  assumes "round_double n e = Some p" "0 \<le> n"
  shows "0 \<le> fst p"
proof -
  define s where "s = nat (max (bitlen \<bar>n\<bar> - 53) (- 1074 - e))"
  have "0 \<le> \<bar>n\<bar> div 2 ^ s" by (simp add: pos_imp_zdiv_nonneg_iff)
  then have "0 \<le> round_shift \<bar>n\<bar> s"
    using round_shift_ge [of "\<bar>n\<bar>" s] by linarith
  then have "0 \<le> sgn n * round_shift \<bar>n\<bar> s"
    using assms(2) by (simp add: sgn_if)
  moreover have "fst p = sgn n * round_shift \<bar>n\<bar> s"
    using assms(1) unfolding round_double_def Let_def s_def [symmetric]
    by (auto split: if_splits)
  ultimately show ?thesis by simp
qed

lemma float_product:
  assumes "0 < W" "0 < H" "W * H < 2 ^ 53" "0 \<le> dval D" "dval D \<le> 1"
  shows "\<exists>a p. float_of_int (W * H) = Inr a \<and> dval a = of_int (W * H) \<and>
           float_mul a D = Some p \<and> num_of_agents W H D = Inr \<lfloor>dval p\<rfloor>"
proof -
  have a: "0 < W * H" using assms(1,2) by (rule mult_pos_pos)
  have conv: "float_of_int (W * H) = Inr (W * H, 0)"
    using a assms(3) by (rule float_of_int_exact)
  have val: "dval (W * H, 0) = of_int (W * H)" by (simp add: dval_def)
  obtain n where n: "num_of_agents W H D = Inr n"
    using num_of_agents_valid [OF assms] by blast
  then have "int_of_float (float_mul (W * H, 0) D) = Inr n"
    by (simp add: num_of_agents_def conv)
  then obtain p where p: "float_mul (W * H, 0) D = Some p"
    by (cases "float_mul (W * H, 0) D") (simp_all add: int_of_float_def)
  have "0 \<le> fst D"
  proof (rule ccontr)
    assume "\<not> 0 \<le> fst D"
    then have neg: "(of_int (fst D) :: rat) < 0" by simp
    have "(0::rat) < (if 0 \<le> snd D then 2 ^ nat (snd D) else 1 / 2 ^ nat (- snd D))"
      by simp
    then have "dval D < 0"
      unfolding dval_def using neg by (rule mult_neg_pos [rotated])
    then show False using assms(4) by simp
  qed
  then have "0 \<le> W * H * fst D" using a by simp
  then have "0 \<le> fst p"
    using p unfolding float_mul_def by (intro round_double_nonneg [of _ _ p]) simp_all
  then have "int_of_float (Some p) = Inr \<lfloor>dval p\<rfloor>" by (rule int_of_float_floor)
  then have "num_of_agents W H D = Inr \<lfloor>dval p\<rfloor>"
    by (simp add: num_of_agents_def conv p)
  then show ?thesis using conv val p by blast
qed

text \<open>
  Claim C6, as amended. For positive width and height with \<open>W * H < 2 ^ 53\<close> and a density
  \<open>D\<close> in \<open>[0, 1]\<close>, whatever the shuffle does, the constructor succeeds and creates
  exactly \<open>int(W * H * D)\<close> trees, no two of them at the same position. The count is the
  floor of the product the code computes, \<open>W * H\<close> converted to a float without error and
  multiplied by \<open>D\<close> in binary64 arithmetic, rounded to nearest. It is at least the floor
  and at most the ceiling of the exact product \<open>W * H * D\<close>, and at most the number of
  cells.
\<close>

theorem population_is_floor_of_product:
  assumes "valid_random rnd" and "0 < W" and "0 < H" and "W * H < 2 ^ 53"
    and "0 \<le> dval D" and "dval D \<le> 1"
  shows "\<exists>m a p. float_of_int (W * H) = Inr a \<and> dval a = of_int (W * H) \<and>
           float_mul a D = Some p \<and>
           Forest_init rnd W H D = Inr m \<and> int (length (schedule m)) = \<lfloor>dval p\<rfloor> \<and>
           \<lfloor>of_int (W * H) * dval D\<rfloor> \<le> \<lfloor>dval p\<rfloor> \<and>
           \<lfloor>dval p\<rfloor> \<le> \<lceil>of_int (W * H) * dval D\<rceil> \<and> \<lfloor>dval p\<rfloor> \<le> W * H \<and>
           distinct (map pos (schedule m))"
proof -
  obtain a p where ap: "float_of_int (W * H) = Inr a" "dval a = of_int (W * H)"
    "float_mul a D = Some p" "num_of_agents W H D = Inr \<lfloor>dval p\<rfloor>"
    using float_product [OF assms(2-6)] by blast
  obtain n where n: "num_of_agents W H D = Inr n" "0 \<le> n" "n \<le> W * H"
    "\<lfloor>of_int (W * H) * dval D\<rfloor> \<le> n" "n \<le> \<lceil>of_int (W * H) * dval D\<rceil>"
    using num_of_agents_valid [OF assms(2-6)] by blast
  have eq: "n = \<lfloor>dval p\<rfloor>" using n(1) ap(4) by simp
  obtain m where m: "Forest_init rnd W H D = Inr m" "length (schedule m) = nat n" "wf_forest m"
    using Forest_init_valid [OF assms(1-3) n(1,3)] by blast
  have "int (length (schedule m)) = \<lfloor>dval p\<rfloor>" using m(2) n(2) eq by simp
  moreover have "distinct (map pos (schedule m))" using m(3) by (simp add: wf_forest_def)
  ultimately show ?thesis using n(3-5) m(1) ap(1-3) unfolding eq by blast
qed

theorem population_is_floor_of_product_witness:
  "valid_random in_order \<and> (0::int) < 5 \<and> (5::int) * 5 < 2 ^ 53 \<and>
   0 \<le> dval (1, - 1) \<and> dval (1, - 1) \<le> 1 \<and>
   created in_order 5 5 (1, - 1) = Inr 12 \<and>
   (\<exists>m a p. float_of_int (5 * 5) = Inr a \<and> dval a = of_int (5 * 5) \<and>
      float_mul a (1, - 1) = Some p \<and>
      Forest_init in_order 5 5 (1, - 1) = Inr m \<and> int (length (schedule m)) = \<lfloor>dval p\<rfloor> \<and>
      \<lfloor>of_int (5 * 5) * dval (1, - 1)\<rfloor> \<le> \<lfloor>dval p\<rfloor> \<and>
      \<lfloor>dval p\<rfloor> \<le> \<lceil>of_int (5 * 5) * dval (1, - 1)\<rceil> \<and> \<lfloor>dval p\<rfloor> \<le> 5 * 5 \<and>
      distinct (map pos (schedule m)))"
proof -
  have h: "(0::int) < 5" "(5::int) * 5 < 2 ^ 53" "0 \<le> dval (1, - 1)" "dval (1, - 1) \<le> 1"
    by (simp_all add: dval_def)
  have n: "created in_order 5 5 (1, - 1) = Inr 12" by code_simp
  show ?thesis
    using valid_in_order h n
      population_is_floor_of_product [OF valid_in_order h(1) h(1) h(2) h(3) h(4)]
    by blast
qed

text \<open>
  The count is not always the floor of \<open>W * H * D\<close>: rounding the product can reach the
  next integer or miss it. The float \<open>0.7\<close> is
  \<open>3152519739159347 / 2 ^ 52\<close>, below \<open>7 / 10\<close>, and Python evaluates \<open>10 * 1 * 0.7\<close> to
  \<open>7.0\<close>: \<open>Forest(10, 1, 0.7)\<close> has 7 trees, and the floor of ten times the value of that
  float is 6. The float nearest to \<open>0.29\<close> lies below it and Python evaluates
  \<open>10 * 10 * 0.29\<close> to \<open>28.999999999999996\<close>: \<open>Forest(10, 10, 0.29)\<close> has 28 trees, and
  the floor of a hundred times \<open>0.29\<close> is 29.
\<close>

theorem population_differs_from_exact_floor:
  "is_double (3152519739159347, - 52) \<and>
   0 \<le> dval (3152519739159347, - 52) \<and> dval (3152519739159347, - 52) \<le> 1 \<and>
   created in_order 10 1 (3152519739159347, - 52) = Inr 7 \<and>
   \<lfloor>of_int (10 * 1) * dval (3152519739159347, - 52)\<rfloor> = 6 \<and>
   is_double (5224175567749775, - 54) \<and>
   \<bar>dval (5224175567749775, - 54) - 29 / 100\<bar> \<le> 1 / 2 ^ 55 \<and>
   created in_order 10 10 (5224175567749775, - 54) = Inr 28 \<and>
   \<lfloor>of_int (10 * 10) * (29 / 100 :: rat)\<rfloor> = 29"
  by code_simp

text \<open>
  Claim C8, as amended. Neither \<open>run_model\<close> nor the constructor checks its arguments.
  With positive width and height: a \<open>max_steps\<close> of zero or less is accepted, the model is
  constructed and the history returned is empty; a density in \<open>[-1, 0)\<close> is accepted and
  gives a model with no trees; a density for which \<open>int(W * H * D)\<close> exceeds
  \<open>W * H\<close> fails with \<open>IndexError\<close>, raised by the creation loop.
\<close>

theorem no_configuration_check:
  assumes "valid_random rnd" and "0 < W" and "0 < H" and "W * H < 2 ^ 53"
  shows "(0 \<le> dval D \<and> dval D \<le> 1 \<and> max_steps \<le> 0 \<longrightarrow>
            (\<exists>m. Forest_init rnd W H D = Inr m) \<and> run_model rnd W H D max_steps = Inr []) \<and>
         (- 1 \<le> dval D \<and> dval D < 0 \<longrightarrow>
            (\<exists>m. Forest_init rnd W H D = Inr m \<and> schedule m = [])) \<and>
         (\<forall>n. num_of_agents W H D = Inr n \<and> W * H < n \<longrightarrow>
            Forest_init rnd W H D = Inl IndexError \<and>
            run_model rnd W H D max_steps = Inl IndexError)"
proof (intro conjI impI allI)
  assume a: "0 \<le> dval D \<and> dval D \<le> 1 \<and> max_steps \<le> 0"
  then obtain n where n: "num_of_agents W H D = Inr n" "n \<le> W * H"
    using num_of_agents_valid [OF assms(2-4)] by blast
  obtain m where m: "Forest_init rnd W H D = Inr m"
    using Forest_init_valid [OF assms(1-3) n] by blast
  then show "\<exists>m. Forest_init rnd W H D = Inr m" by blast
  have "datacollector m = []"
    using Forest_init_fresh [OF m] by (simp add: fresh_def)
  then show "run_model rnd W H D max_steps = Inr []"
    using a m by (simp add: run_model_def)
next
  assume "- 1 \<le> dval D \<and> dval D < 0"
  then obtain n where n: "num_of_agents W H D = Inr n" "n \<le> 0"
    using num_of_agents_negative [OF assms(2-4)] by blast
  have "0 < W * H" using assms(2,3) by (rule mult_pos_pos)
  then have "n \<le> W * H" using n(2) by simp
  then obtain m where "Forest_init rnd W H D = Inr m" "length (schedule m) = nat n"
    using Forest_init_valid [OF assms(1-3) n(1)] by blast
  then show "\<exists>m. Forest_init rnd W H D = Inr m \<and> schedule m = []"
    using n(2) by auto
next
  fix n
  assume "num_of_agents W H D = Inr n \<and> W * H < n"
  then show e: "Forest_init rnd W H D = Inl IndexError"
    using Forest_init_index_error [OF assms(1-3)] by blast
  then show "run_model rnd W H D max_steps = Inl IndexError"
    by (simp add: run_model_def)
qed

theorem no_configuration_check_witness:
  "valid_random in_order \<and> (0::int) < 5 \<and> (5::int) * 5 < 2 ^ 53 \<and>
   0 \<le> dval (1, - 1) \<and> dval (1, - 1) \<le> 1 \<and> (0::int) \<le> 0 \<and>
   (\<exists>m. Forest_init in_order 5 5 (1, - 1) = Inr m) \<and>
   run_model in_order 5 5 (1, - 1) 0 = Inr [] \<and>
   - 1 \<le> dval (- 1, - 1) \<and> dval (- 1, - 1) < 0 \<and>
   (\<exists>m. Forest_init in_order 5 5 (- 1, - 1) = Inr m \<and> schedule m = []) \<and>
   num_of_agents 5 5 (1, 1) = Inr 50 \<and> (5::int) * 5 < 50 \<and>
   Forest_init in_order 5 5 (1, 1) = Inl IndexError \<and>
   run_model in_order 5 5 (1, 1) 10 = Inl IndexError"
proof -
  have h: "(0::int) < 5" "(5::int) * 5 < 2 ^ 53" "0 \<le> dval (1, - 1)" "dval (1, - 1) \<le> 1"
    "(0::int) \<le> 0" "- 1 \<le> dval (- 1, - 1)" "dval (- 1, - 1) < 0" "(5::int) * 5 < 50"
    by (simp_all add: dval_def)
  have n: "num_of_agents 5 5 (1, 1) = Inr 50" by code_simp
  show ?thesis
    using valid_in_order h n
      no_configuration_check [OF valid_in_order h(1) h(1) h(2), where D = "(1, - 1)" and max_steps = 0]
      no_configuration_check [OF valid_in_order h(1) h(1) h(2), where D = "(- 1, - 1)" and max_steps = 10]
      no_configuration_check [OF valid_in_order h(1) h(1) h(2), where D = "(1, 1)" and max_steps = 10]
    by blast
qed

text \<open>
  \<open>run_model(5, 5, 0.5, 0)\<close> builds a forest of 12 trees and returns an empty history;
  \<open>run_model(3, 1, -0.5, 10)\<close> builds an empty forest and returns one row of zeros;
  \<open>run_model(3, 1, 2.0, 10)\<close> raises \<open>IndexError\<close> from the creation loop.
\<close>

theorem invalid_configurations_accepted:
  "run_model in_order 5 5 (1, - 1) 0 = Inr [] \<and>
   created in_order 5 5 (1, - 1) = Inr 12 \<and>
   run_model in_order 3 1 (- 1, - 1) 10 = Inr [(0, 0, 0)] \<and>
   run_model in_order 3 1 (1, 1) 10 = Inl IndexError"
  by code_simp

section \<open>Reproducibility\<close>







end
